theory Spec2Isabelle
  imports Complex_Main
begin

section \<open>Data model\<close>

text \<open>
  The analysis works on JavaScript numbers. They are modelled as mathematical reals
  (coordinates, angles, timestamps) and as integers (frame indices, scores);
  rounding error, NaN and the infinities of IEEE doubles are outside the model.
  The coordinate fields \<open>x\<close>, \<open>y\<close>, \<open>z\<close> of a landmark are called \<open>px\<close>, \<open>py\<close>, \<open>pz\<close>.
\<close>

record Landmark =
  px :: real
  py :: real
  pz :: real
  visibility :: real

record PoseFrame =
  timestamp :: real
  landmarks :: "Landmark list"

datatype CameraAngle = frontal | rear | left_side | right_side | diagonal | uncertain

datatype ExerciseType = squat | deadlift | other | unknown

datatype MetricRating = green | yellow | red

datatype MetricConfidence = high | medium | low

record MetricScore =
  score :: int
  rating :: MetricRating
  summary :: string
  issueFrames :: "int list"
  confidence :: MetricConfidence

record DetectedRep =
  startFrame :: int
  endFrame :: int
  bottomFrame :: int

text \<open>The named indices of \<open>POSE_LANDMARKS\<close>.\<close>

definition NOSE :: nat where "NOSE = 0"
definition LEFT_EYE :: nat where "LEFT_EYE = 2"
definition RIGHT_EYE :: nat where "RIGHT_EYE = 5"
definition LEFT_SHOULDER :: nat where "LEFT_SHOULDER = 11"
definition RIGHT_SHOULDER :: nat where "RIGHT_SHOULDER = 12"
definition LEFT_ELBOW :: nat where "LEFT_ELBOW = 13"
definition RIGHT_ELBOW :: nat where "RIGHT_ELBOW = 14"
definition LEFT_WRIST :: nat where "LEFT_WRIST = 15"
definition RIGHT_WRIST :: nat where "RIGHT_WRIST = 16"
definition LEFT_HIP :: nat where "LEFT_HIP = 23"
definition RIGHT_HIP :: nat where "RIGHT_HIP = 24"
definition LEFT_KNEE :: nat where "LEFT_KNEE = 25"
definition RIGHT_KNEE :: nat where "RIGHT_KNEE = 26"
definition LEFT_ANKLE :: nat where "LEFT_ANKLE = 27"
definition RIGHT_ANKLE :: nat where "RIGHT_ANKLE = 28"
definition LEFT_HEEL :: nat where "LEFT_HEEL = 29"
definition RIGHT_HEEL :: nat where "RIGHT_HEEL = 30"
definition LEFT_FOOT_INDEX :: nat where "LEFT_FOOT_INDEX = 31"
definition RIGHT_FOOT_INDEX :: nat where "RIGHT_FOOT_INDEX = 32"

text \<open>
  \<open>frames[i]\<close> and \<open>f.landmarks[k]\<close>: indices are JavaScript numbers, here integers.
  The reads of the analysis stay inside the arrays (a frame carries 33 landmarks and
  the repetitions handed to the scorers lie inside the sequence).
\<close>

definition frameAt :: "PoseFrame list \<Rightarrow> int \<Rightarrow> PoseFrame" where
  "frameAt frames i = frames ! nat i"

definition lm :: "PoseFrame \<Rightarrow> nat \<Rightarrow> Landmark" where
  "lm f k = landmarks f ! k"

definition avgHipY :: "PoseFrame \<Rightarrow> real" where
  "avgHipY f = (py (lm f LEFT_HIP) + py (lm f RIGHT_HIP)) / 2"

section \<open>Geometry helpers\<close>

definition midpoint :: "Landmark \<Rightarrow> Landmark \<Rightarrow> Landmark" where
  "midpoint a b =
     \<lparr> px = (px a + px b) / 2, py = (py a + py b) / 2, pz = (pz a + pz b) / 2,
       visibility = (visibility a + visibility b) / 2 \<rparr>"

definition getRating :: "int \<Rightarrow> MetricRating" where
  "getRating s = (if s \<ge> 80 then green else if s \<ge> 50 then yellow else red)"

definition clamp :: "real \<Rightarrow> real \<Rightarrow> real \<Rightarrow> real" where
  "clamp v lo hi = max lo (min hi v)"

section \<open>Smoothing\<close>

definition movingAverage :: "real list \<Rightarrow> int \<Rightarrow> real list" where
  "movingAverage vals windowSize =
     (let half = windowSize div 2 in
      map (\<lambda>i. let start = max 0 (i - half);
                    stop = min (int (length vals) - 1) (i + half)
                in (\<Sum>j\<leftarrow>[start..stop]. vals ! nat j) / real_of_int (stop - start + 1))
          [0..int (length vals) - 1])"

section \<open>Rep detection\<close>

datatype direction = Backward | Forward

fun step :: "direction \<Rightarrow> int" where
  "step Backward = -1"
| "step Forward = 1"

text \<open>
  \<open>findValley\<close> walks from a bottom towards \<open>boundary\<close> while the smoothed signal does
  not rise. The parameter \<open>direction: -1 | 1\<close> is the datatype \<open>direction\<close>.
\<close>

function findValley :: "real list \<Rightarrow> int \<Rightarrow> direction \<Rightarrow> int \<Rightarrow> int" where
  "findValley smoothed i d boundary =
     (let next = i + step d in
      if (if d = Backward then next < boundary else next > boundary) then i
      else if smoothed ! nat next > smoothed ! nat i then i
      else findValley smoothed next d boundary)"
  by pat_completeness auto
termination
proof (relation "measure (\<lambda>(s, i, d, b). nat (if d = Backward then i - b else b - i))")
  show "wf (measure (\<lambda>(s, i, d, b). nat (if d = Backward then i - b else b - i)))"
    by simp
next
  fix smoothed :: "real list" and i :: int and d :: direction and boundary nx :: int
  assume "nx = i + step d"
    and "\<not> (if d = Backward then nx < boundary else nx > boundary)"
  then show "((smoothed, nx, d, boundary), (smoothed, i, d, boundary))
      \<in> measure (\<lambda>(s, i, d, b). nat (if d = Backward then i - b else b - i))"
    by (cases d) auto
qed

declare findValley.simps [simp del]

definition isPeak :: "real list \<Rightarrow> int \<Rightarrow> bool" where
  "isPeak smoothed i \<longleftrightarrow>
     smoothed ! nat i > smoothed ! nat (i - 1) \<and>
     smoothed ! nat i > smoothed ! nat (i - 2) \<and>
     smoothed ! nat i > smoothed ! nat (i + 1) \<and>
     smoothed ! nat i > smoothed ! nat (i + 2)"

definition leftMin :: "real list \<Rightarrow> int \<Rightarrow> real" where
  "leftMin smoothed i =
     fold (\<lambda>j m. min m (smoothed ! nat j)) (rev [max 0 (i - 15)..i - 1]) (smoothed ! nat i)"

definition rightMin :: "real list \<Rightarrow> int \<Rightarrow> real" where
  "rightMin smoothed i =
     fold (\<lambda>j m. min m (smoothed ! nat j))
       [i + 1..min (int (length smoothed) - 1) (i + 15)] (smoothed ! nat i)"

definition prominence :: "real list \<Rightarrow> int \<Rightarrow> real" where
  "prominence smoothed i = smoothed ! nat i - max (leftMin smoothed i) (rightMin smoothed i)"

definition minProminence :: real where
  "minProminence = 0.02"

definition findBottoms :: "real list \<Rightarrow> int list" where
  "findBottoms smoothed =
     filter (\<lambda>i. isPeak smoothed i \<and> prominence smoothed i \<ge> minProminence)
       [2..int (length smoothed) - 3]"

definition makeRep :: "real list \<Rightarrow> int \<Rightarrow> int list \<Rightarrow> int \<Rightarrow> DetectedRep" where
  "makeRep smoothed n bottoms k =
     (let bottom = bottoms ! nat k;
          prevBottom = (if k > 0 then bottoms ! nat (k - 1) else -1);
          nextBottom = (if k < int (length bottoms) - 1 then bottoms ! nat (k + 1) else n);
          start = (if prevBottom = -1 then findValley smoothed bottom Backward 0
                   else (prevBottom + bottom) div 2);
          stop = (if k = int (length bottoms) - 1
                  then findValley smoothed bottom Forward (int (length smoothed) - 1)
                  else (bottom + nextBottom) div 2 - 1)
      in \<lparr> startFrame = max 0 start, endFrame = min (n - 1) stop, bottomFrame = bottom \<rparr>)"

definition detectReps :: "PoseFrame list \<Rightarrow> DetectedRep list" where
  "detectReps frames =
     (if length frames < 5 then []
      else let hipYValues = map avgHipY frames;
               smoothed = movingAverage hipYValues 5;
               bottoms = findBottoms smoothed
           in if bottoms = [] then []
              else map (makeRep smoothed (int (length frames)) bottoms)
                     [0..int (length bottoms) - 1])"


section \<open>Numeric helpers of the scorers\<close>

text \<open>
  \<open>Math.max(...xs)\<close> and \<open>Math.min(...xs)\<close> on a non-empty array. (On an empty array
  JavaScript answers \<open>-Infinity\<close> and \<open>Infinity\<close>; every call below that can see an
  empty array treats that case before.)
\<close>

definition mathMax :: "real list \<Rightarrow> real" where
  "mathMax xs = fold max (tl xs) (hd xs)"

definition mathMin :: "real list \<Rightarrow> real" where
  "mathMin xs = fold min (tl xs) (hd xs)"

definition mean :: "real list \<Rightarrow> real" where
  "mean xs = sum_list xs / real (length xs)"

definition variance :: "real list \<Rightarrow> real" where
  "variance xs = (\<Sum>a\<leftarrow>xs. (a - mean xs)\<^sup>2) / real (length xs)"

text \<open>\<open>Math.atan2(y, x)\<close> on the reals (no signed zero).\<close>

definition atan2 :: "real \<Rightarrow> real \<Rightarrow> real" where
  "atan2 b a =
     (if a > 0 then arctan (b / a)
      else if a < 0 \<and> b \<ge> 0 then arctan (b / a) + pi
      else if a < 0 then arctan (b / a) - pi
      else if b > 0 then pi / 2
      else if b < 0 then - pi / 2
      else 0)"

definition angleBetween :: "Landmark \<Rightarrow> Landmark \<Rightarrow> Landmark \<Rightarrow> real" where
  "angleBetween a b c =
     (let baX = px a - px b; baY = py a - py b;
          bcX = px c - px b; bcY = py c - py b;
          dot = baX * bcX + baY * bcY;
          magBA = sqrt (baX * baX + baY * baY);
          magBC = sqrt (bcX * bcX + bcY * bcY)
      in if magBA = 0 \<or> magBC = 0 then 0
         else let cosAngle = max (-1) (min 1 (dot / (magBA * magBC)))
              in (arccos cosAngle * 180) / pi)"

text \<open>
  The angle of the line from the hip midpoint to the shoulder midpoint against the
  vertical, which four scorers compute in the same words.
\<close>

definition angleFromVertical :: "Landmark \<Rightarrow> Landmark \<Rightarrow> real" where
  "angleFromVertical upper lower =
     (let dx = px upper - px lower; dy = py upper - py lower
      in (atan2 \<bar>dx\<bar> \<bar>dy\<bar> * 180) / pi)"

definition spineAngle :: "PoseFrame \<Rightarrow> real" where
  "spineAngle f =
     (let shoulderMid = midpoint (lm f LEFT_SHOULDER) (lm f RIGHT_SHOULDER);
          hipMid = midpoint (lm f LEFT_HIP) (lm f RIGHT_HIP)
      in angleFromVertical shoulderMid hipMid)"

subsection \<open>Number formatting\<close>

fun showNat :: "nat \<Rightarrow> string" where
  "showNat n =
     (if n < 10 then [''0123456789'' ! n]
      else showNat (n div 10) @ [''0123456789'' ! (n mod 10)])"

declare showNat.simps [simp del]

text \<open>\<open>v.toFixed(1)\<close> for \<open>\<bar>v\<bar> < 10\<^sup>2\<^sup>1\<close>: the nearest tenth, ties upwards in magnitude.\<close>

definition toFixed1 :: "real \<Rightarrow> string" where
  "toFixed1 v =
     (let n = nat \<lfloor>\<bar>v\<bar> * 10 + 1 / 2\<rfloor>
      in (if v < 0 then ''-'' else []) @ showNat (n div 10) @ ''.'' @ showNat (n mod 10))"

fun joinWith :: "string \<Rightarrow> string list \<Rightarrow> string" where
  "joinWith sep [] = []"
| "joinWith sep [a] = a"
| "joinWith sep (a # b # bs) = a @ sep @ joinWith sep (b # bs)"

section \<open>Scorers\<close>

text \<open>
  Every scorer returns a fresh \<open>MetricScore\<close>. \<open>Math.round\<close> is \<open>round\<close> (ties towards
  plus infinity). The summaries are the source's texts with its typographic dash written
  as a hyphen.
\<close>

subsection \<open>Depth\<close>

definition scoreDepth :: "PoseFrame list \<Rightarrow> DetectedRep \<Rightarrow> MetricScore" where
  "scoreDepth frames rep =
     (let f = frameAt frames (bottomFrame rep);
          lh = lm f LEFT_HIP; rh = lm f RIGHT_HIP;
          lk = lm f LEFT_KNEE; rk = lm f RIGHT_KNEE;
          avgHip = (py lh + py rh) / 2;
          avgKneeY = (py lk + py rk) / 2;
          belowParallel = avgHip > avgKneeY;
          (sc, summ, issues) =
            (if belowParallel then
               let extraDepth = avgHip - avgKneeY
               in (clamp (80 + extraDepth * 200) 80 100,
                   ''Good depth - hips dropped below parallel'', [])
             else
               let deficit = avgKneeY - avgHip
               in if deficit < 0.03 then
                    (clamp (50 + (1 - deficit / 0.03) * 29) 50 79,
                     ''Close to parallel but hips didn't quite reach below knee level'', [])
                  else
                    (clamp (49 - deficit * 300) 0 49,
                     ''Squat depth is above parallel - try to get hips below knee level'',
                     [bottomFrame rep]))
      in \<lparr> score = round sc, rating = getRating (round sc), summary = summ,
           issueFrames = issues, confidence = high \<rparr>)"

subsection \<open>Active zone\<close>

definition isActiveFrame :: "PoseFrame list \<Rightarrow> DetectedRep \<Rightarrow> int \<Rightarrow> bool" where
  "isActiveFrame frames rep frameIdx =
     (let getHipY = (\<lambda>i. avgHipY (frameAt frames i));
          standingY = getHipY (startFrame rep);
          bottomY = getHipY (bottomFrame rep);
          totalDrop = bottomY - standingY
      in if \<bar>totalDrop\<bar> < 0.01 then True
         else let currentY = getHipY frameIdx;
                  descent = currentY - standingY;
                  ratio = descent / totalDrop
              in ratio \<ge> 0.25)"

subsection \<open>Knee tracking\<close>

definition kneeTrackingStep ::
  "PoseFrame list \<Rightarrow> DetectedRep \<Rightarrow> int \<Rightarrow> real \<times> int list \<Rightarrow> real \<times> int list" where
  "kneeTrackingStep frames rep i acc =
     (case acc of (maxDriftRatio, issues) \<Rightarrow>
        if \<not> isActiveFrame frames rep i then acc
        else
          let f = frameAt frames i;
              lk = lm f LEFT_KNEE; rk = lm f RIGHT_KNEE;
              la = lm f LEFT_ANKLE; ra = lm f RIGHT_ANKLE;
              stanceWidth = \<bar>px la - px ra\<bar>
          in if stanceWidth < 0.01 then acc
             else
               let leftDrift = \<bar>px lk - px la\<bar> / stanceWidth;
                   rightDrift = \<bar>px rk - px ra\<bar> / stanceWidth;
                   maxFrameDrift = max leftDrift rightDrift
               in (if maxFrameDrift > maxDriftRatio then maxFrameDrift else maxDriftRatio,
                   if maxFrameDrift > 0.1 then issues @ [i] else issues))"

definition scoreKneeTracking :: "PoseFrame list \<Rightarrow> DetectedRep \<Rightarrow> MetricScore" where
  "scoreKneeTracking frames rep =
     (let (maxDriftRatio, issues) =
            fold (kneeTrackingStep frames rep) [startFrame rep..endFrame rep] (0, []);
          (sc, summ) =
            (if maxDriftRatio < 0.05 then
               (clamp (80 + (1 - maxDriftRatio / 0.05) * 20) 80 100,
                ''Good knee tracking - knees stayed aligned over toes'')
             else if maxDriftRatio < 0.1 then
               (clamp (50 + ((0.1 - maxDriftRatio) / 0.05) * 29) 50 79,
                ''Minor knee drift detected - focus on pushing knees out over toes'')
             else
               (clamp (49 - (maxDriftRatio - 0.1) * 200) 0 49,
                ''Significant knee cave detected - knees collapsed inward during the squat''))
      in \<lparr> score = round sc, rating = getRating (round sc), summary = summ,
           issueFrames = issues, confidence = high \<rparr>)"

subsection \<open>Back angle\<close>

definition scoreBackAngle :: "PoseFrame list \<Rightarrow> DetectedRep \<Rightarrow> MetricScore" where
  "scoreBackAngle frames rep =
     (let idxs = [startFrame rep..endFrame rep];
          angles = map (\<lambda>i. spineAngle (frameAt frames i)) idxs;
          issues = filter (\<lambda>i. spineAngle (frameAt frames i) > 60) idxs
      in if angles = [] then
           \<lparr> score = 50, rating = yellow, summary = ''Could not assess back angle'',
             issueFrames = [], confidence = high \<rparr>
         else
           let maxAngle = mathMax angles;
               stdDev = sqrt (variance angles);
               (sc0, summ0) =
                 (if maxAngle \<le> 45 \<and> stdDev < 10 then
                    (clamp (80 + (1 - maxAngle / 45) * 20) 80 100,
                     ''Good torso position - maintained an upright back angle'')
                  else if maxAngle \<le> 60 then
                    (clamp (50 + ((60 - maxAngle) / 15) * 29) 50 79,
                     ''Moderate forward lean - try to keep your chest more upright'')
                  else
                    (clamp (49 - (maxAngle - 60) * 2) 0 49,
                     ''Excessive forward lean - risk of lower back strain''));
               (sc, summ) =
                 (if stdDev > 15 then
                    (max 0 (sc0 - 10),
                     summ0 @ ''. Torso angle was inconsistent throughout the rep'')
                  else (sc0, summ0))
           in \<lparr> score = round sc, rating = getRating (round sc), summary = summ,
                issueFrames = issues, confidence = high \<rparr>)"

subsection \<open>Bar path\<close>

definition estimatedFrameHeightInches :: real where
  "estimatedFrameHeightInches = 72"

definition scoreBarPath :: "PoseFrame list \<Rightarrow> DetectedRep \<Rightarrow> MetricScore" where
  "scoreBarPath frames rep =
     (let xPositions =
            map (\<lambda>i. px (midpoint (lm (frameAt frames i) LEFT_SHOULDER)
                                   (lm (frameAt frames i) RIGHT_SHOULDER)))
              [startFrame rep..endFrame rep]
      in if xPositions = [] then
           \<lparr> score = 50, rating = yellow, summary = ''Could not assess bar path'',
             issueFrames = [], confidence = high \<rparr>
         else
           let meanX = mean xPositions;
               maxDeviation = mathMax (map (\<lambda>v. \<bar>v - meanX\<bar>) xPositions);
               deviationInches = maxDeviation * estimatedFrameHeightInches;
               issues =
                 map (\<lambda>i. startFrame rep + i)
                   (filter (\<lambda>i. \<bar>xPositions ! nat i - meanX\<bar> * estimatedFrameHeightInches > 4)
                      [0..int (length xPositions) - 1]);
               (sc, summ) =
                 (if deviationInches < 2 then
                    (clamp (80 + (1 - deviationInches / 2) * 20) 80 100,
                     ''Good bar path - minimal horizontal drift'')
                  else if deviationInches < 4 then
                    (clamp (50 + ((4 - deviationInches) / 2) * 29) 50 79,
                     ''Some horizontal drift in bar path - focus on keeping the bar over midfoot'')
                  else
                    (clamp (49 - (deviationInches - 4) * 5) 0 49,
                     ''Excessive bar path deviation - the bar shifted significantly forward or back''))
           in \<lparr> score = round sc, rating = getRating (round sc), summary = summ,
                issueFrames = issues, confidence = high \<rparr>)"

subsection \<open>Symmetry\<close>

definition scoreSymmetry :: "PoseFrame list \<Rightarrow> DetectedRep \<Rightarrow> MetricScore" where
  "scoreSymmetry frames rep =
     (let f = frameAt frames (bottomFrame rep);
          ls = lm f LEFT_SHOULDER; rs = lm f RIGHT_SHOULDER;
          lh = lm f LEFT_HIP; rh = lm f RIGHT_HIP;
          lk = lm f LEFT_KNEE; rk = lm f RIGHT_KNEE;
          la = lm f LEFT_ANKLE; ra = lm f RIGHT_ANKLE;
          hipHeightDiff = \<bar>py lh - py rh\<bar>;
          leftKneeAngle = angleBetween lh lk la;
          rightKneeAngle = angleBetween rh rk ra;
          kneeAngleDiff = \<bar>leftKneeAngle - rightKneeAngle\<bar>;
          avgKneeAngle = (leftKneeAngle + rightKneeAngle) / 2;
          kneeAnglePct = (if avgKneeAngle > 0 then kneeAngleDiff / avgKneeAngle else 0);
          shoulderHeightDiff = \<bar>py ls - py rs\<bar>;
          bodyHeight = \<bar>((py ls + py rs) / 2) - ((py la + py ra) / 2)\<bar>;
          hipPct = (if bodyHeight > 0 then hipHeightDiff / bodyHeight else 0);
          shoulderPct = (if bodyHeight > 0 then shoulderHeightDiff / bodyHeight else 0);
          avgAsymmetry = (hipPct + kneeAnglePct + shoulderPct) / 3;
          (sc, summ, issues) =
            (if avgAsymmetry < 0.05 then
               (clamp (80 + (1 - avgAsymmetry / 0.05) * 20) 80 100,
                ''Good symmetry - both sides moved evenly'', [])
             else if avgAsymmetry < 0.1 then
               (clamp (50 + ((0.1 - avgAsymmetry) / 0.05) * 29) 50 79,
                ''Minor asymmetry detected - one side is working slightly harder'',
                [bottomFrame rep])
             else
               (clamp (49 - (avgAsymmetry - 0.1) * 200) 0 49,
                ''Significant asymmetry - noticeable imbalance between left and right sides'',
                [bottomFrame rep]))
      in \<lparr> score = round sc, rating = getRating (round sc), summary = summ,
           issueFrames = issues, confidence = high \<rparr>)"


subsection \<open>Butt wink\<close>

definition scoreButtWink :: "PoseFrame list \<Rightarrow> DetectedRep \<Rightarrow> MetricScore" where
  "scoreButtWink frames rep =
     (let bottomIdx = bottomFrame rep;
          windowSize = max 1 \<lfloor>real_of_int (endFrame rep - startFrame rep) * 0.15\<rfloor>;
          approachIdx = max (startFrame rep) (bottomIdx - windowSize * 2);
          approachAngles =
            map (\<lambda>i. spineAngle (frameAt frames i))
              [approachIdx..min (bottomIdx - windowSize) (endFrame rep) - 1];
          bottomStart = max (startFrame rep) (bottomIdx - windowSize);
          bottomEnd = min (endFrame rep) (bottomIdx + windowSize);
          bottomAngles = map (\<lambda>i. spineAngle (frameAt frames i)) [bottomStart..bottomEnd]
      in if approachAngles = [] \<or> bottomAngles = [] then
           \<lparr> score = 75, rating = yellow, summary = ''Could not fully assess butt wink'',
             issueFrames = [], confidence = high \<rparr>
         else
           let approachAngle = mean approachAngles;
               maxBottomAngle = mathMax bottomAngles;
               angleIncrease = max 0 (maxBottomAngle - approachAngle);
               (sc, summ, issues) =
                 (if angleIncrease < 10 then
                    (clamp (80 + (1 - angleIncrease / 10) * 20) 80 100,
                     ''Good pelvic control - minimal butt wink at the bottom'', [])
                  else if angleIncrease < 15 then
                    (clamp (50 + ((15 - angleIncrease) / 5) * 29) 50 79,
                     ''Moderate butt wink - some posterior pelvic tilt at depth'',
                     [bottomStart..bottomEnd])
                  else
                    (clamp (49 - (angleIncrease - 15) * 3) 0 49,
                     ''Significant butt wink - pelvis tucks under at the bottom, risking lower back strain'',
                     [bottomStart..bottomEnd]))
           in \<lparr> score = round sc, rating = getRating (round sc), summary = summ,
                issueFrames = issues, confidence = high \<rparr>)"

subsection \<open>Tempo\<close>

text \<open>
  The four checks of \<open>scoreTempo\<close> update the running \<open>score\<close> and the \<open>issues\<close>
  list; each is a function on that pair.
\<close>

definition tempoTotalCheck :: "DetectedRep \<Rightarrow> real \<Rightarrow> real \<times> string list \<times> int list" where
  "tempoTotalCheck rep totalDuration =
     (if totalDuration < 1 then
        (min 100 30, [''rep completed too quickly''], [startFrame rep..endFrame rep])
      else (100, [], []))"

definition tempoDescentCheck :: "real \<Rightarrow> real \<times> string list \<Rightarrow> real \<times> string list" where
  "tempoDescentCheck eccentricDuration st =
     (case st of (sc, issues) \<Rightarrow>
        if eccentricDuration < 1 then
          (min sc 60, issues @ [''descent too fast (< 1s)''])
        else if eccentricDuration \<ge> 1.5 \<and> eccentricDuration \<le> 4 then (sc, issues)
        else if eccentricDuration > 4 then
          (min sc 70, issues @ [''descent very slow''])
        else (sc, issues))"

definition tempoAscentCheck :: "real \<Rightarrow> real \<times> string list \<Rightarrow> real \<times> string list" where
  "tempoAscentCheck concentricDuration st =
     (case st of (sc, issues) \<Rightarrow>
        if concentricDuration < 0.8 then
          (min sc 65, issues @ [''ascent very fast''])
        else if concentricDuration > 2.5 \<and> concentricDuration \<le> 3 then
          (min sc 75, issues @ [''ascent slightly slow''])
        else if concentricDuration > 3 then
          (min sc 60, issues @ [''ascent too slow (> 3s)''])
        else (sc, issues))"

definition tempoRatioCheck ::
  "real \<Rightarrow> real \<Rightarrow> real \<times> string list \<Rightarrow> real \<times> string list" where
  "tempoRatioCheck eccentricDuration concentricDuration st =
     (case st of (sc, issues) \<Rightarrow>
        if eccentricDuration > 0 \<and> concentricDuration > 0 then
          let ratio = eccentricDuration / concentricDuration
          in if ratio \<ge> 1.2 \<and> ratio \<le> 2.5 then (sc, issues)
             else if ratio < 1.0 then
               (min sc 65, issues @ [''concentric slower than eccentric''])
             else (sc, issues)
        else (sc, issues))"

definition scoreTempo :: "PoseFrame list \<Rightarrow> DetectedRep \<Rightarrow> MetricScore" where
  "scoreTempo frames rep =
     (let startTime = timestamp (frameAt frames (startFrame rep));
          bottomTime = timestamp (frameAt frames (bottomFrame rep));
          endTime = timestamp (frameAt frames (endFrame rep));
          eccentricDuration = bottomTime - startTime;
          concentricDuration = endTime - bottomTime;
          totalDuration = endTime - startTime;
          (sc1, issues1, frameIssues) = tempoTotalCheck rep totalDuration;
          (sc, issues) =
            tempoRatioCheck eccentricDuration concentricDuration
              (tempoAscentCheck concentricDuration
                 (tempoDescentCheck eccentricDuration (sc1, issues1)));
          summ =
            (if issues = [] then
               ''Good tempo - '' @ toFixed1 eccentricDuration @ ''s down, '' @
               toFixed1 concentricDuration @ ''s up''
             else
               ''Tempo: '' @ toFixed1 eccentricDuration @ ''s down, '' @
               toFixed1 concentricDuration @ ''s up - '' @ joinWith '', '' issues)
      in \<lparr> score = round sc, rating = getRating (round sc), summary = summ,
           issueFrames = frameIssues, confidence = high \<rparr>)"

subsection \<open>Heel rise\<close>

definition avgHeelY :: "PoseFrame \<Rightarrow> real" where
  "avgHeelY f = (py (lm f LEFT_HEEL) + py (lm f RIGHT_HEEL)) / 2"

definition heelRiseStep ::
  "PoseFrame list \<Rightarrow> real \<Rightarrow> int \<Rightarrow> real \<times> int list \<Rightarrow> real \<times> int list" where
  "heelRiseStep frames avgHeelStart i acc =
     (case acc of (maxRise, issues) \<Rightarrow>
        let avgHeel = avgHeelY (frameAt frames i);
            rise = avgHeelStart - avgHeel
        in (if rise > maxRise then rise else maxRise,
            if rise > 0.015 then issues @ [i] else issues))"

definition scoreHeelRise :: "PoseFrame list \<Rightarrow> DetectedRep \<Rightarrow> MetricScore" where
  "scoreHeelRise frames rep =
     (let avgHeelStart = avgHeelY (frameAt frames (startFrame rep));
          (maxRise, issues) =
            fold (heelRiseStep frames avgHeelStart) [startFrame rep..endFrame rep] (0, []);
          (sc, summ) =
            (if maxRise < 0.015 then
               (clamp (80 + (1 - maxRise / 0.015) * 20) 80 100,
                ''Good heel contact - feet stayed flat throughout the squat'')
             else if maxRise < 0.03 then
               (clamp (50 + ((0.03 - maxRise) / 0.015) * 29) 50 79,
                ''Minor heel rise detected - work on ankle mobility or try heel-elevated shoes'')
             else
               (clamp (49 - (maxRise - 0.03) * 500) 0 49,
                ''Significant heel rise - heels lifted off the ground during the squat''))
      in \<lparr> score = round sc, rating = getRating (round sc), summary = summ,
           issueFrames = issues, confidence = high \<rparr>)"

subsection \<open>Stance width\<close>

definition scoreStanceWidth :: "PoseFrame list \<Rightarrow> DetectedRep \<Rightarrow> MetricScore" where
  "scoreStanceWidth frames rep =
     (let f = frameAt frames (startFrame rep);
          la = lm f LEFT_ANKLE; ra = lm f RIGHT_ANKLE;
          lh = lm f LEFT_HIP; rh = lm f RIGHT_HIP;
          ankleWidth = \<bar>px la - px ra\<bar>;
          hipWidth = \<bar>px lh - px rh\<bar>
      in if hipWidth < 0.01 then
           \<lparr> score = 75, rating = yellow,
             summary = ''Could not assess stance width - hip width too small to measure'',
             issueFrames = [], confidence = high \<rparr>
         else
           let ratio = ankleWidth / hipWidth;
               (sc, summ, issues) =
                 (if ratio \<ge> 1.2 \<and> ratio \<le> 1.8 then
                    (clamp (80 + (1 - \<bar>ratio - 1.5\<bar> / 0.3) * 20) 80 100,
                     ''Good stance width - ankles are '' @ toFixed1 ratio @ ''x hip width'', [])
                  else if (ratio \<ge> 1.1 \<and> ratio < 1.2) \<or> (ratio > 1.8 \<and> ratio \<le> 2.0) then
                    (clamp (50 + 29 * (1 - min \<bar>ratio - 1.2\<bar> \<bar>ratio - 1.8\<bar> / 0.2)) 50 79,
                     if ratio < 1.2
                     then ''Stance slightly narrow - try widening your feet a bit''
                     else ''Stance slightly wide - consider narrowing your feet slightly'',
                     [startFrame rep])
                  else
                    (if ratio < 1.1 then clamp (49 - (1.1 - ratio) * 200) 0 49
                     else clamp (49 - (ratio - 2.0) * 100) 0 49,
                     if ratio < 1.1
                     then ''Stance too narrow - feet are closer than hip width, limiting stability''
                     else ''Stance very wide - this may strain your inner thighs and limit depth'',
                     [startFrame rep]))
           in \<lparr> score = round sc, rating = getRating (round sc), summary = summ,
                issueFrames = issues, confidence = high \<rparr>)"

subsection \<open>Hip shift\<close>

definition scoreHipShift :: "PoseFrame list \<Rightarrow> DetectedRep \<Rightarrow> MetricScore" where
  "scoreHipShift frames rep =
     (let xPositions =
            map (\<lambda>i. px (midpoint (lm (frameAt frames i) LEFT_HIP)
                                   (lm (frameAt frames i) RIGHT_HIP)))
              [bottomFrame rep..endFrame rep]
      in if length xPositions < 2 then
           \<lparr> score = 75, rating = yellow, summary = ''Could not assess hip shift'',
             issueFrames = [], confidence = high \<rparr>
         else
           let meanX = mean xPositions;
               maxDeviation = mathMax (map (\<lambda>v. \<bar>v - meanX\<bar>) xPositions);
               deviationInches = maxDeviation * estimatedFrameHeightInches;
               issues =
                 map (\<lambda>i. bottomFrame rep + i)
                   (filter (\<lambda>i. \<bar>xPositions ! nat i - meanX\<bar> * estimatedFrameHeightInches > 1.5)
                      [0..int (length xPositions) - 1]);
               (sc, summ) =
                 (if deviationInches < 1.5 then
                    (clamp (80 + (1 - deviationInches / 1.5) * 20) 80 100,
                     ''Good hip stability - hips stayed centered during ascent'')
                  else if deviationInches < 3 then
                    (clamp (50 + ((3 - deviationInches) / 1.5) * 29) 50 79,
                     ''Minor hip shift detected - hips drifted laterally during ascent'')
                  else
                    (clamp (49 - (deviationInches - 3) * 5) 0 49,
                     ''Significant hip shift - hips swayed to one side, suggesting a strength imbalance''))
           in \<lparr> score = round sc, rating = getRating (round sc), summary = summ,
                issueFrames = issues, confidence = high \<rparr>)"

subsection \<open>Knee valgus\<close>

definition kneeValgusStep ::
  "PoseFrame list \<Rightarrow> DetectedRep \<Rightarrow> int \<Rightarrow> real \<times> int list \<Rightarrow> real \<times> int list" where
  "kneeValgusStep frames rep i acc =
     (case acc of (maxValgusAngle, issues) \<Rightarrow>
        if \<not> isActiveFrame frames rep i then acc
        else
          let f = frameAt frames i;
              lh = lm f LEFT_HIP; lk = lm f LEFT_KNEE; la = lm f LEFT_ANKLE;
              rh = lm f RIGHT_HIP; rk = lm f RIGHT_KNEE; ra = lm f RIGHT_ANKLE;
              leftInward = px lk - ((px lh + px la) / 2);
              rightInward = ((px rh + px ra) / 2) - px rk;
              hipToAnkleY = \<bar>py lh - py la\<bar>;
              leftAngle =
                (if hipToAnkleY > 0 then (atan2 \<bar>leftInward\<bar> hipToAnkleY * 180) / pi else 0);
              rightAngle =
                (if hipToAnkleY > 0 then (atan2 \<bar>rightInward\<bar> hipToAnkleY * 180) / pi else 0);
              leftValgus = (if leftInward > 0 then leftAngle else 0);
              rightValgus = (if rightInward > 0 then rightAngle else 0);
              frameMax = max leftValgus rightValgus
          in (if frameMax > maxValgusAngle then frameMax else maxValgusAngle,
              if frameMax > 10 then issues @ [i] else issues))"

definition scoreKneeValgus :: "PoseFrame list \<Rightarrow> DetectedRep \<Rightarrow> MetricScore" where
  "scoreKneeValgus frames rep =
     (let (maxValgusAngle, issues) =
            fold (kneeValgusStep frames rep) [startFrame rep..endFrame rep] (0, []);
          (sc, summ) =
            (if maxValgusAngle < 10 then
               (clamp (80 + (1 - maxValgusAngle / 10) * 20) 80 100,
                ''Good knee alignment - knees tracked in line with toes'')
             else if maxValgusAngle < 15 then
               (clamp (50 + ((15 - maxValgusAngle) / 5) * 29) 50 79,
                ''Minor knee valgus - knees collapsed slightly inward'')
             else
               (clamp (49 - (maxValgusAngle - 15) * 3) 0 49,
                ''Significant knee valgus - knees caved inward, increasing injury risk''))
      in \<lparr> score = round sc, rating = getRating (round sc), summary = summ,
           issueFrames = issues, confidence = high \<rparr>)"

subsection \<open>Knee travel\<close>

definition scoreKneeTravel :: "PoseFrame list \<Rightarrow> DetectedRep \<Rightarrow> MetricScore" where
  "scoreKneeTravel frames rep =
     (let f = frameAt frames (bottomFrame rep);
          lk = lm f LEFT_KNEE; rk = lm f RIGHT_KNEE;
          lft = lm f LEFT_FOOT_INDEX; rft = lm f RIGHT_FOOT_INDEX;
          leftTravel = px lk - px lft;
          rightTravel = px rk - px rft;
          maxTravel = max \<bar>leftTravel\<bar> \<bar>rightTravel\<bar>;
          travelInches = maxTravel * estimatedFrameHeightInches;
          (sc, summ, issues) =
            (if travelInches < 2 then
               (clamp (80 + (1 - travelInches / 2) * 20) 80 100,
                ''Good knee position - knees stayed near or behind toe line'', [])
             else if travelInches < 4 then
               (clamp (50 + ((4 - travelInches) / 2) * 29) 50 79,
                ''Moderate knee travel - knees tracked slightly past toes'',
                [bottomFrame rep])
             else
               (clamp (49 - (travelInches - 4) * 5) 0 49,
                ''Excessive forward knee travel - knees extended well past toes, increasing knee stress'',
                [bottomFrame rep]))
      in \<lparr> score = round sc, rating = getRating (round sc), summary = summ,
           issueFrames = issues, confidence = high \<rparr>)"

subsection \<open>Depth consistency\<close>

text \<open>\<open>xs.indexOf(v)\<close>: the first index holding \<open>v\<close>, or \<open>-1\<close>.\<close>

fun indexOfFrom :: "'a list \<Rightarrow> 'a \<Rightarrow> int \<Rightarrow> int" where
  "indexOfFrom [] v i = -1"
| "indexOfFrom (a # as) v i = (if a = v then i else indexOfFrom as v (i + 1))"

definition indexOf :: "'a list \<Rightarrow> 'a \<Rightarrow> int" where
  "indexOf xs v = indexOfFrom xs v 0"

definition scoreDepthConsistency :: "PoseFrame list \<Rightarrow> DetectedRep list \<Rightarrow> MetricScore" where
  "scoreDepthConsistency frames allReps =
     (if length allReps < 2 then
        \<lparr> score = 100, rating = green, summary = ''Single rep - consistency not applicable'',
          issueFrames = [], confidence = high \<rparr>
      else
        let bottomDepths = map (\<lambda>rep. avgHipY (frameAt frames (bottomFrame rep))) allReps;
            mu = mean bottomDepths;
            stdDev = sqrt (variance bottomDepths);
            cv = (if mu > 0 then stdDev / mu else 0);
            (sc, summ, issues) =
              (if cv < 0.02 then
                 (clamp (80 + (1 - cv / 0.02) * 20) 80 100,
                  ''Excellent depth consistency - bottom position was very consistent across reps'',
                  [])
               else if cv < 0.05 then
                 (clamp (50 + ((0.05 - cv) / 0.03) * 29) 50 79,
                  ''Minor depth variation - some reps were deeper than others'',
                  let minDepth = mathMin bottomDepths;
                      shallowest = indexOf bottomDepths minDepth
                  in [bottomFrame (allReps ! nat shallowest)])
               else
                 (clamp (49 - (cv - 0.05) * 500) 0 49,
                  ''Inconsistent depth - significant variation in bottom position between reps'',
                  map bottomFrame allReps))
        in \<lparr> score = round sc, rating = getRating (round sc), summary = summ,
             issueFrames = issues, confidence = high \<rparr>)"


subsection \<open>Thoracic rounding\<close>

definition thoracicRoundingStep ::
  "PoseFrame list \<Rightarrow> DetectedRep \<Rightarrow> int \<Rightarrow> real \<times> int list \<Rightarrow> real \<times> int list" where
  "thoracicRoundingStep frames rep i acc =
     (case acc of (maxRounding, issues) \<Rightarrow>
        if \<not> isActiveFrame frames rep i then acc
        else
          let f = frameAt frames i;
              shoulderMid = midpoint (lm f LEFT_SHOULDER) (lm f RIGHT_SHOULDER);
              hipMid = midpoint (lm f LEFT_HIP) (lm f RIGHT_HIP);
              nose = lm f NOSE;
              trunkAngle = angleFromVertical shoulderMid hipMid;
              upperAngle = angleFromVertical nose shoulderMid;
              rounding = max 0 (upperAngle - trunkAngle)
          in (if rounding > maxRounding then rounding else maxRounding,
              if rounding > 20 then issues @ [i] else issues))"

definition scoreThoracicRounding :: "PoseFrame list \<Rightarrow> DetectedRep \<Rightarrow> MetricScore" where
  "scoreThoracicRounding frames rep =
     (let (maxRounding, issues) =
            fold (thoracicRoundingStep frames rep) [startFrame rep..endFrame rep] (0, []);
          (sc, summ) =
            (if maxRounding < 15 then
               (clamp (80 + (1 - maxRounding / 15) * 20) 80 100,
                ''Good upper back position - thoracic spine stayed neutral'')
             else if maxRounding < 25 then
               (clamp (50 + ((25 - maxRounding) / 10) * 29) 50 79,
                ''Moderate thoracic rounding - upper back collapsed slightly under load'')
             else
               (clamp (49 - (maxRounding - 25) * 2) 0 49,
                ''Significant thoracic rounding - upper back rounded excessively''))
      in \<lparr> score = round sc, rating = getRating (round sc), summary = summ,
           issueFrames = issues, confidence = high \<rparr>)"

subsection \<open>Hip rise rate\<close>

definition avgShoulderY :: "PoseFrame \<Rightarrow> real" where
  "avgShoulderY f = (py (lm f LEFT_SHOULDER) + py (lm f RIGHT_SHOULDER)) / 2"

definition hipRiseStep ::
  "PoseFrame list \<Rightarrow> int \<Rightarrow> int \<Rightarrow> int \<Rightarrow> real \<times> int list \<Rightarrow> real \<times> int list" where
  "hipRiseStep frames endIdx chunkSize i acc =
     (case acc of (maxRateRatio, issues) \<Rightarrow>
        let f1 = frameAt frames i;
            f2 = frameAt frames (min (i + chunkSize) endIdx);
            hipY1 = avgHipY f1; hipY2 = avgHipY f2;
            shoulderY1 = avgShoulderY f1; shoulderY2 = avgShoulderY f2;
            hipRise = hipY1 - hipY2;
            shoulderRise = shoulderY1 - shoulderY2
        in if shoulderRise > 0.001 then
             let rateRatio = hipRise / shoulderRise
             in (if rateRatio > maxRateRatio then rateRatio else maxRateRatio,
                 if rateRatio > 1.5 then issues @ [i] else issues)
           else if hipRise > 0.01 then (max maxRateRatio 3, issues @ [i])
           else acc)"

text \<open>The sampling loop \<open>for (i = bottomIdx; i < endIdx - chunkSize; i += max(1, chunkSize div 2))\<close>.\<close>

function hipRiseLoop ::
  "PoseFrame list \<Rightarrow> int \<Rightarrow> int \<Rightarrow> int \<Rightarrow> real \<times> int list \<Rightarrow> real \<times> int list" where
  "hipRiseLoop frames endIdx chunkSize i acc =
     (if i < endIdx - chunkSize
      then hipRiseLoop frames endIdx chunkSize (i + max 1 (chunkSize div 2))
             (hipRiseStep frames endIdx chunkSize i acc)
      else acc)"
  by pat_completeness auto
termination
  by (relation "measure (\<lambda>(frames, endIdx, chunkSize, i, acc). nat (endIdx - chunkSize - i))")
     auto

declare hipRiseLoop.simps [simp del]

definition scoreHipRiseRate :: "PoseFrame list \<Rightarrow> DetectedRep \<Rightarrow> MetricScore" where
  "scoreHipRiseRate frames rep =
     (let bottomIdx = bottomFrame rep;
          endIdx = endFrame rep;
          ascentFrames = endIdx - bottomIdx
      in if ascentFrames < 3 then
           \<lparr> score = 75, rating = yellow,
             summary = ''Could not assess hip rise rate - ascent too short'',
             issueFrames = [], confidence = high \<rparr>
         else
           let chunkSize = max 2 (ascentFrames div 5);
               (maxRateRatio, issues) = hipRiseLoop frames endIdx chunkSize bottomIdx (0, []);
               (sc, summ) =
                 (if maxRateRatio < 1.3 then
                    (clamp (80 + (1 - maxRateRatio / 1.3) * 20) 80 100,
                     ''Good ascent mechanics - hips and shoulders rose together'')
                  else if maxRateRatio < 1.8 then
                    (clamp (50 + ((1.8 - maxRateRatio) / 0.5) * 29) 50 79,
                     ''Hips rising slightly ahead of chest - mild good-morning tendency'')
                  else
                    (clamp (49 - (maxRateRatio - 1.8) * 15) 0 49,
                     ''Good-morning pattern - hips shot up while chest stayed low, risking lower back strain''))
           in \<lparr> score = round sc, rating = getRating (round sc), summary = summ,
                issueFrames = issues, confidence = high \<rparr>)"

subsection \<open>Reversal control\<close>

definition hipVelocity :: "PoseFrame list \<Rightarrow> int \<Rightarrow> real" where
  "hipVelocity frames i =
     (avgHipY (frameAt frames (i + 1)) - avgHipY (frameAt frames i)) /
     (timestamp (frameAt frames (i + 1)) - timestamp (frameAt frames i))"

definition velocities :: "PoseFrame list \<Rightarrow> int list \<Rightarrow> real list" where
  "velocities frames idxs =
     map (hipVelocity frames)
       (filter (\<lambda>i. timestamp (frameAt frames (i + 1)) - timestamp (frameAt frames i) > 0) idxs)"

definition scoreReversalControl :: "PoseFrame list \<Rightarrow> DetectedRep \<Rightarrow> MetricScore" where
  "scoreReversalControl frames rep =
     (let bottomIdx = bottomFrame rep;
          windowSize = max 2 \<lfloor>real_of_int (endFrame rep - startFrame rep) * 0.1\<rfloor>;
          preStart = max (startFrame rep) (bottomIdx - windowSize);
          postEnd = min (endFrame rep) (bottomIdx + windowSize);
          couldNot =
            \<lparr> score = 75, rating = yellow, summary = ''Could not assess reversal control'',
              issueFrames = [], confidence = high \<rparr>
      in if postEnd - preStart < 3 then couldNot
         else
           let preVelocities = velocities frames [preStart..bottomIdx - 1];
               postVelocities = velocities frames [bottomIdx..postEnd - 1]
           in if preVelocities = [] \<or> postVelocities = [] then couldNot
              else
                let avgPreVel = mean preVelocities;
                    avgPostVel = mean postVelocities;
                    velocityChange = \<bar>avgPreVel - avgPostVel\<bar>;
                    (sc, summ, issues) =
                      (if velocityChange < 0.3 then
                         (clamp (80 + (1 - velocityChange / 0.3) * 20) 80 100,
                          ''Good reversal control - smooth, controlled transition at the bottom'',
                          [])
                       else if velocityChange < 0.6 then
                         (clamp (50 + ((0.6 - velocityChange) / 0.3) * 29) 50 79,
                          ''Moderate bounce at bottom - try pausing briefly at the bottom for more control'',
                          [bottomIdx])
                       else
                         (clamp (49 - (velocityChange - 0.6) * 30) 0 49,
                          ''Hard bounce at bottom - rapid direction change increases injury risk'',
                          [preStart..postEnd]))
                in \<lparr> score = round sc, rating = getRating (round sc), summary = summ,
                     issueFrames = issues, confidence = high \<rparr>)"

subsection \<open>Stance width shift\<close>

definition ankleWidthOf :: "PoseFrame \<Rightarrow> real" where
  "ankleWidthOf f = \<bar>px (lm f LEFT_ANKLE) - px (lm f RIGHT_ANKLE)\<bar>"

definition stanceShiftStep ::
  "PoseFrame list \<Rightarrow> real \<Rightarrow> int \<Rightarrow> real \<times> int list \<Rightarrow> real \<times> int list" where
  "stanceShiftStep frames startAnkleWidth i acc =
     (case acc of (maxShiftPct, issues) \<Rightarrow>
        let currentWidth = ankleWidthOf (frameAt frames i);
            shiftPct = \<bar>currentWidth - startAnkleWidth\<bar> / startAnkleWidth
        in (if shiftPct > maxShiftPct then shiftPct else maxShiftPct,
            if shiftPct > 0.1 then issues @ [i] else issues))"

definition scoreStanceWidthShift :: "PoseFrame list \<Rightarrow> DetectedRep \<Rightarrow> MetricScore" where
  "scoreStanceWidthShift frames rep =
     (let startAnkleWidth = ankleWidthOf (frameAt frames (startFrame rep))
      in if startAnkleWidth < 0.01 then
           \<lparr> score = 75, rating = yellow, summary = ''Could not assess stance width shift'',
             issueFrames = [], confidence = high \<rparr>
         else
           let (maxShiftPct, loopIssues) =
                 fold (stanceShiftStep frames startAnkleWidth)
                   [startFrame rep..endFrame rep] (0, []);
               (sc, summ, issues) =
                 (if maxShiftPct < 0.08 then
                    (clamp (80 + (1 - maxShiftPct / 0.08) * 20) 80 100,
                     ''Good stance stability - feet stayed in position throughout the rep'',
                     loopIssues)
                  else if maxShiftPct < 0.15 then
                    (clamp (50 + ((0.15 - maxShiftPct) / 0.07) * 29) 50 79,
                     ''Minor stance shift - feet drifted slightly during the rep'',
                     loopIssues @ [bottomFrame rep])
                  else
                    (clamp (49 - (maxShiftPct - 0.15) * 200) 0 49,
                     ''Significant stance shift - feet moved noticeably wider or narrower mid-rep'',
                     loopIssues))
           in \<lparr> score = round sc, rating = getRating (round sc), summary = summ,
                issueFrames = issues, confidence = high \<rparr>)"

subsection \<open>Head position\<close>

definition headPositionStep ::
  "PoseFrame list \<Rightarrow> DetectedRep \<Rightarrow> int \<Rightarrow> real \<times> int list \<Rightarrow> real \<times> int list" where
  "headPositionStep frames rep i acc =
     (case acc of (maxDeviation, issues) \<Rightarrow>
        if \<not> isActiveFrame frames rep i then acc
        else
          let f = frameAt frames i;
              nose = lm f NOSE;
              shoulderMid = midpoint (lm f LEFT_SHOULDER) (lm f RIGHT_SHOULDER);
              headAngle = angleFromVertical nose shoulderMid
          in (if headAngle > maxDeviation then headAngle else maxDeviation,
              if headAngle > 35 then issues @ [i] else issues))"

definition scoreHeadPosition :: "PoseFrame list \<Rightarrow> DetectedRep \<Rightarrow> MetricScore" where
  "scoreHeadPosition frames rep =
     (let (maxDeviation, issues) =
            fold (headPositionStep frames rep) [startFrame rep..endFrame rep] (0, []);
          (sc, summ) =
            (if maxDeviation < 25 then
               (clamp (80 + (1 - maxDeviation / 25) * 20) 80 100,
                ''Good head position - neck stayed in neutral alignment'')
             else if maxDeviation < 40 then
               (clamp (50 + ((40 - maxDeviation) / 15) * 29) 50 79,
                ''Head position slightly off - avoid excessive neck extension or flexion'')
             else
               (clamp (49 - (maxDeviation - 40) * 2) 0 49,
                ''Poor head position - neck was excessively extended or flexed, risking cervical strain''))
      in \<lparr> score = round sc, rating = getRating (round sc), summary = summ,
           issueFrames = issues, confidence = high \<rparr>)"

section \<open>Aggregation\<close>

text \<open>
  \<open>[...scores].sort((a, b) => a.score - b.score)\<close> is a stable ascending sort, as is
  \<open>sort_key\<close> (insertion sort).
\<close>

definition averageMetricScores :: "MetricScore list \<Rightarrow> MetricScore" where
  "averageMetricScores scores =
     (if scores = [] then
        \<lparr> score = 0, rating = red, summary = ''No reps detected'', issueFrames = [],
          confidence = high \<rparr>
      else
        let avgScore = round (real_of_int (sum_list (map score scores)) / real (length scores));
            allIssueFrames = concat (map issueFrames scores);
            sorted = sort_key score scores;
            medianSummary = summary (sorted ! (length sorted div 2));
            goodReps = length (filter (\<lambda>s. score s \<ge> 80) scores);
            summ =
              (if length scores > 1 then
                 medianSummary @ '' ('' @ showNat goodReps @ ''/'' @ showNat (length scores) @
                 '' reps rated good)''
               else medianSummary)
        in \<lparr> score = avgScore, rating = getRating avgScore, summary = summ,
             issueFrames = allIssueFrames, confidence = confidence (hd scores) \<rparr>)"


section \<open>Confidence matrix\<close>

definition row ::
  "MetricConfidence \<Rightarrow> MetricConfidence \<Rightarrow> MetricConfidence \<Rightarrow> MetricConfidence \<Rightarrow>
   MetricConfidence \<Rightarrow> MetricConfidence \<Rightarrow> CameraAngle \<Rightarrow> MetricConfidence" where
  "row fr re ls rs di un a =
     (case a of frontal \<Rightarrow> fr | rear \<Rightarrow> re | left_side \<Rightarrow> ls | right_side \<Rightarrow> rs
      | diagonal \<Rightarrow> di | uncertain \<Rightarrow> un)"

definition CONFIDENCE_MATRIX :: "(string \<times> (CameraAngle \<Rightarrow> MetricConfidence)) list" where
  "CONFIDENCE_MATRIX =
     [(''depth'', row medium medium high high high medium),
      (''kneeTracking'', row high high low low medium medium),
      (''backAngle'', row low low high high medium medium),
      (''barPath'', row low low high high medium medium),
      (''symmetry'', row high high low low medium medium),
      (''buttWink'', row low low high high medium medium),
      (''tempo'', row high high high high high high),
      (''heelRise'', row medium medium high high high medium),
      (''stanceWidth'', row high high low low medium medium),
      (''hipShift'', row high high low low medium medium),
      (''kneeValgus'', row high high low low medium medium),
      (''kneeTravel'', row low low high high medium medium),
      (''depthConsistency'', row medium medium high high high medium),
      (''thoracicRounding'', row low low high high medium medium),
      (''hipRiseRate'', row low low high high medium medium),
      (''reversalControl'', row medium medium high high high medium),
      (''stanceWidthShift'', row high high low low medium medium),
      (''headPosition'', row low low high high medium medium)]"

definition getMetricConfidence :: "string \<Rightarrow> CameraAngle \<Rightarrow> MetricConfidence" where
  "getMetricConfidence metric angle =
     (case map_of CONFIDENCE_MATRIX metric of None \<Rightarrow> medium | Some r \<Rightarrow> r angle)"

section \<open>Main analysis\<close>

text \<open>
  \<open>analyzeSquat\<close> stamps the confidence into the \<open>MetricScore\<close> objects after they are
  built, and the one object returned by \<open>scoreDepthConsistency\<close> is referenced from every
  rep and from the overall result. The objects therefore live in a store: a
  \<open>MetricScore\<close>-valued field holds a reference, \<open>alloc\<close> is an object literal and
  \<open>setConfidence\<close> the assignment \<open>m.confidence = c\<close>.
\<close>

type_synonym ref = nat

type_synonym heap = "MetricScore list"

definition alloc :: "MetricScore \<Rightarrow> heap \<Rightarrow> ref \<times> heap" where
  "alloc m h = (length h, h @ [m])"

definition setConfidence :: "ref \<Rightarrow> MetricConfidence \<Rightarrow> heap \<Rightarrow> heap" where
  "setConfidence r c h = h[r := (h ! r)\<lparr>confidence := c\<rparr>]"

datatype MetricKey =
  Depth | KneeTracking | BackAngle | BarPath | Symmetry | ButtWink | Tempo | HeelRise
  | StanceWidth | HipShift | KneeValgus | KneeTravel | DepthConsistency | ThoracicRounding
  | HipRiseRate | ReversalControl | StanceWidthShift | HeadPosition

definition metricKeys :: "MetricKey list" where
  "metricKeys =
     [Depth, KneeTracking, BackAngle, BarPath, Symmetry, ButtWink, Tempo, HeelRise,
      StanceWidth, HipShift, KneeValgus, KneeTravel, DepthConsistency, ThoracicRounding,
      HipRiseRate, ReversalControl, StanceWidthShift, HeadPosition]"

fun metricName :: "MetricKey \<Rightarrow> string" where
  "metricName Depth = ''depth''"
| "metricName KneeTracking = ''kneeTracking''"
| "metricName BackAngle = ''backAngle''"
| "metricName BarPath = ''barPath''"
| "metricName Symmetry = ''symmetry''"
| "metricName ButtWink = ''buttWink''"
| "metricName Tempo = ''tempo''"
| "metricName HeelRise = ''heelRise''"
| "metricName StanceWidth = ''stanceWidth''"
| "metricName HipShift = ''hipShift''"
| "metricName KneeValgus = ''kneeValgus''"
| "metricName KneeTravel = ''kneeTravel''"
| "metricName DepthConsistency = ''depthConsistency''"
| "metricName ThoracicRounding = ''thoracicRounding''"
| "metricName HipRiseRate = ''hipRiseRate''"
| "metricName ReversalControl = ''reversalControl''"
| "metricName StanceWidthShift = ''stanceWidthShift''"
| "metricName HeadPosition = ''headPosition''"

text \<open>
  The scorer behind each field of the \<open>RepData\<close> literal; \<open>depthConsistency\<close> has none,
  the literal stores the object computed before the loop.
\<close>

fun perRepScorer :: "MetricKey \<Rightarrow> (PoseFrame list \<Rightarrow> DetectedRep \<Rightarrow> MetricScore) option" where
  "perRepScorer Depth = Some scoreDepth"
| "perRepScorer KneeTracking = Some scoreKneeTracking"
| "perRepScorer BackAngle = Some scoreBackAngle"
| "perRepScorer BarPath = Some scoreBarPath"
| "perRepScorer Symmetry = Some scoreSymmetry"
| "perRepScorer ButtWink = Some scoreButtWink"
| "perRepScorer Tempo = Some scoreTempo"
| "perRepScorer HeelRise = Some scoreHeelRise"
| "perRepScorer StanceWidth = Some scoreStanceWidth"
| "perRepScorer HipShift = Some scoreHipShift"
| "perRepScorer KneeValgus = Some scoreKneeValgus"
| "perRepScorer KneeTravel = Some scoreKneeTravel"
| "perRepScorer DepthConsistency = None"
| "perRepScorer ThoracicRounding = Some scoreThoracicRounding"
| "perRepScorer HipRiseRate = Some scoreHipRiseRate"
| "perRepScorer ReversalControl = Some scoreReversalControl"
| "perRepScorer StanceWidthShift = Some scoreStanceWidthShift"
| "perRepScorer HeadPosition = Some scoreHeadPosition"

text \<open>
  \<open>RepData\<close> and the \<open>overall\<close> object have one \<open>MetricScore\<close> field per metric name;
  the eighteen fields are a function from \<open>MetricKey\<close> to references.
\<close>

record RepData = DetectedRep +
  repNumber :: int
  metrics :: "MetricKey \<Rightarrow> ref"

record SquatAnalysisResult =
  reps :: "RepData list"
  overall :: "MetricKey \<Rightarrow> ref"
  repCount :: int
  exerciseType :: "ExerciseType option"
  cameraAngle :: "CameraAngle option"

datatype error = NoRepsDetected | TypeError

definition initField ::
  "PoseFrame list \<Rightarrow> DetectedRep \<Rightarrow> ref \<Rightarrow> MetricKey \<Rightarrow>
   (MetricKey \<Rightarrow> ref) \<times> heap \<Rightarrow> (MetricKey \<Rightarrow> ref) \<times> heap" where
  "initField frames rep dcRef key st =
     (case st of (m, h) \<Rightarrow>
        (case perRepScorer key of
           None \<Rightarrow> (m(key := dcRef), h)
         | Some scorer \<Rightarrow>
             (case alloc (scorer frames rep) h of (r, h') \<Rightarrow> (m(key := r), h'))))"

definition stampConfidence ::
  "CameraAngle \<Rightarrow> (MetricKey \<Rightarrow> ref) \<Rightarrow> MetricKey \<Rightarrow> heap \<Rightarrow> heap" where
  "stampConfidence angle m key h =
     setConfidence (m key) (getMetricConfidence (metricName key) angle) h"

definition analyzeRep ::
  "PoseFrame list \<Rightarrow> CameraAngle \<Rightarrow> ref \<Rightarrow> DetectedRep \<Rightarrow> int \<Rightarrow> heap \<Rightarrow> RepData \<times> heap" where
  "analyzeRep frames angle dcRef rep idx h =
     (case fold (initField frames rep dcRef) metricKeys (\<lambda>k. 0, h) of (m, h1) \<Rightarrow>
        (\<lparr> startFrame = startFrame rep, endFrame = endFrame rep,
            bottomFrame = bottomFrame rep, repNumber = idx + 1, metrics = m \<rparr>,
         fold (stampConfidence angle m) metricKeys h1))"

text \<open>\<open>repsToAnalyze.map((rep, idx) => ...)\<close>, the store threaded through.\<close>

fun analyzeReps ::
  "PoseFrame list \<Rightarrow> CameraAngle \<Rightarrow> ref \<Rightarrow> DetectedRep list \<Rightarrow> int \<Rightarrow> heap \<Rightarrow>
   RepData list \<times> heap" where
  "analyzeReps frames angle dcRef [] idx h = ([], h)"
| "analyzeReps frames angle dcRef (rep # rest) idx h =
     (case analyzeRep frames angle dcRef rep idx h of (rd, h1) \<Rightarrow>
        (case analyzeReps frames angle dcRef rest (idx + 1) h1 of (rds, h2) \<Rightarrow>
           (rd # rds, h2)))"

definition overallField ::
  "RepData list \<Rightarrow> ref \<Rightarrow> MetricKey \<Rightarrow>
   (MetricKey \<Rightarrow> ref) \<times> heap \<Rightarrow> (MetricKey \<Rightarrow> ref) \<times> heap" where
  "overallField rs dcRef key st =
     (case st of (m, h) \<Rightarrow>
        (case perRepScorer key of
           None \<Rightarrow> (m(key := dcRef), h)
         | Some scorer \<Rightarrow>
             (case alloc (averageMetricScores (map (\<lambda>r. h ! metrics r key) rs)) h of
                (r, h') \<Rightarrow> (m(key := r), h'))))"

text \<open>
  The fallback of \<open>analyzeSquat\<close> when \<open>detectReps\<close> finds nothing. On an empty
  sequence \<open>Math.max()\<close> is \<open>-Infinity\<close> and \<open>Math.min()\<close> is \<open>Infinity\<close>, so the range
  is below the floor and the error is thrown.
\<close>

definition deepestStep :: "real list \<Rightarrow> int \<Rightarrow> int \<times> real option \<Rightarrow> int \<times> real option" where
  "deepestStep ys i acc =
     (case acc of (bottomIdx, peakY) \<Rightarrow>
        if (case peakY of None \<Rightarrow> True | Some p \<Rightarrow> ys ! nat i > p)
        then (i, Some (ys ! nat i)) else acc)"

definition wholeClipRep :: "PoseFrame list \<Rightarrow> error + DetectedRep list" where
  "wholeClipRep frames =
     (let hipYValues = map avgHipY frames
      in if hipYValues = [] then Inl NoRepsDetected
         else
           let minY = mathMin hipYValues;
               maxY = mathMax hipYValues;
               range = maxY - minY
           in if range < 0.005 then Inl NoRepsDetected
              else
                let (bottomIdx, peakY) =
                      fold (deepestStep hipYValues) [0..int (length hipYValues) - 1] (0, None)
                in Inr [\<lparr> startFrame = 0, endFrame = int (length frames) - 1,
                          bottomFrame = bottomIdx \<rparr>])"

text \<open>The variable \<open>repsToAnalyze\<close>: the detected reps, or the whole clip as one rep.\<close>

definition repsToAnalyze :: "PoseFrame list \<Rightarrow> error + DetectedRep list" where
  "repsToAnalyze frames =
     (let detectedReps = detectReps frames
      in if length detectedReps > 0 then Inr detectedReps else wholeClipRep frames)"

definition analyzeSquat ::
  "PoseFrame list \<Rightarrow> ExerciseType option \<Rightarrow> CameraAngle option \<Rightarrow>
   error + (SquatAnalysisResult \<times> heap)" where
  "analyzeSquat frames exType camAngle =
     (case repsToAnalyze frames of
        Inl e \<Rightarrow> Inl e
      | Inr rta \<Rightarrow>
          let angle = (case camAngle of Some a \<Rightarrow> a | None \<Rightarrow> uncertain);
              (dcRef, h0) = alloc (scoreDepthConsistency frames rta) [];
              (rs, h1) = analyzeReps frames angle dcRef rta 0 h0;
              (ov, h2) = fold (overallField rs dcRef) metricKeys (\<lambda>k. 0, h1)
          in Inr (\<lparr> reps = rs, overall = ov, repCount = int (length rs),
                    exerciseType = exType, cameraAngle = camAngle \<rparr>, h2))"

section \<open>Trimming\<close>

text \<open>\<open>xs.slice(a, b)\<close>, with JavaScript's reading of negative and oversized bounds.\<close>

definition slice :: "'a list \<Rightarrow> int \<Rightarrow> int \<Rightarrow> 'a list" where
  "slice xs a b =
     (let len = int (length xs);
          k = (if a < 0 then max (len + a) 0 else min a len);
          e = (if b < 0 then max (len + b) 0 else min b len)
      in take (nat (e - k)) (drop (nat k) xs))"

record TrimResult =
  trimmedFrames :: "PoseFrame list"
  startTimestamp :: real
  endTimestamp :: real

definition BUFFER_SECONDS :: real where
  "BUFFER_SECONDS = 2.5"

definition avgFrameDuration :: "PoseFrame list \<Rightarrow> real" where
  "avgFrameDuration frames =
     (if length frames > 1
      then (timestamp (last frames) - timestamp (hd frames)) / real (length frames - 1)
      else 1 / 30)"

text \<open>
  The bounds of the trimmed range. A zero average frame duration makes
  \<open>BUFFER_SECONDS / avgFrameDuration\<close> infinite in JavaScript, and the bounds are then
  the whole sequence.
\<close>

definition trimBounds :: "PoseFrame list \<Rightarrow> DetectedRep list \<Rightarrow> int \<times> int" where
  "trimBounds frames rs =
     (let firstRep = hd rs; lastRep = last rs;
          n = int (length frames)
      in if avgFrameDuration frames = 0 then (0, n - 1)
         else
           let bufferFrames = \<lceil>BUFFER_SECONDS / avgFrameDuration frames\<rceil>
           in (max 0 (startFrame firstRep - bufferFrames),
               min (n - 1) (endFrame lastRep + bufferFrames)))"

definition trimFramesToReps :: "PoseFrame list \<Rightarrow> error + TrimResult" where
  "trimFramesToReps frames =
     (if frames = [] then
        Inr \<lparr> trimmedFrames = frames, startTimestamp = 0, endTimestamp = 0 \<rparr>
      else
        let rs = detectReps frames
        in if rs = [] then
             Inr \<lparr> trimmedFrames = frames, startTimestamp = timestamp (hd frames),
                   endTimestamp = timestamp (last frames) \<rparr>
           else
             let (trimStart, trimEnd) = trimBounds frames rs
             in if trimStart \<ge> int (length frames) \<or> trimEnd < 0 then Inl TypeError
                else
                  Inr \<lparr> trimmedFrames = slice frames trimStart (trimEnd + 1),
                        startTimestamp = timestamp (frameAt frames trimStart),
                        endTimestamp = timestamp (frameAt frames trimEnd) \<rparr>)"


section \<open>Signal conditioning: outlier rejection\<close>

definition estimateBodyHeight :: "Landmark list \<Rightarrow> real" where
  "estimateBodyHeight lms =
     (let ls = lms ! LEFT_SHOULDER; rs = lms ! RIGHT_SHOULDER;
          la = lms ! LEFT_ANKLE; ra = lms ! RIGHT_ANKLE;
          shoulderY = (py ls + py rs) / 2;
          ankleY = (py la + py ra) / 2
      in \<bar>ankleY - shoulderY\<bar>)"

definition rejectOne :: "real \<Rightarrow> Landmark \<Rightarrow> Landmark \<Rightarrow> Landmark" where
  "rejectOne threshold l prev =
     (let dx = px l - px prev;
          dy = py l - py prev;
          dist = sqrt (dx * dx + dy * dy)
      in if dist > threshold then prev\<lparr>visibility := visibility l\<rparr> else l)"

text \<open>
  \<open>prevLandmarks\<close> is \<open>null\<close> before the first valid frame. Reading \<open>prevLandmarks[i]\<close>
  beyond its length gives \<open>undefined\<close>, whose field access throws.
\<close>

definition rejectOutliers ::
  "Landmark list \<Rightarrow> Landmark list option \<Rightarrow> real \<Rightarrow> error + Landmark list" where
  "rejectOutliers rawLandmarks prevLandmarks bodyHeight =
     (case prevLandmarks of
        None \<Rightarrow> Inr rawLandmarks
      | Some prevs \<Rightarrow>
          if bodyHeight \<le> 0 then Inr rawLandmarks
          else
            let threshold = bodyHeight * 0.15
            in if length prevs < length rawLandmarks then Inl TypeError
               else Inr (map (\<lambda>i. rejectOne threshold (rawLandmarks ! i) (prevs ! i))
                           [0..<length rawLandmarks]))"

section \<open>Camera angle detection\<close>

definition shouldersVisible :: "PoseFrame \<Rightarrow> bool" where
  "shouldersVisible f \<longleftrightarrow>
     \<not> (visibility (lm f LEFT_SHOULDER) < 0.3 \<or> visibility (lm f RIGHT_SHOULDER) < 0.3)"

definition stableAt :: "PoseFrame list \<Rightarrow> int \<Rightarrow> bool" where
  "stableAt frames i \<longleftrightarrow> list_all (\<lambda>j. shouldersVisible (frameAt frames j)) [i..i + 4]"

definition findStableStart :: "PoseFrame list \<Rightarrow> int" where
  "findStableStart frames =
     (case find (stableAt frames) [0..int (length frames) - 5] of
        None \<Rightarrow> -1 | Some i \<Rightarrow> i)"

definition classifyFrame :: "PoseFrame \<Rightarrow> CameraAngle" where
  "classifyFrame f =
     (let ls = lm f LEFT_SHOULDER; rs = lm f RIGHT_SHOULDER;
          shoulderSpread = \<bar>px ls - px rs\<bar>;
          nose = lm f NOSE; leftEye = lm f LEFT_EYE; rightEye = lm f RIGHT_EYE;
          faceVis = (visibility nose + visibility leftEye + visibility rightEye) / 3
      in if shoulderSpread < 0.08 then
           let leftVis = (visibility (lm f LEFT_SHOULDER) + visibility (lm f LEFT_ELBOW) +
                          visibility (lm f LEFT_WRIST)) / 3;
               rightVis = (visibility (lm f RIGHT_SHOULDER) + visibility (lm f RIGHT_ELBOW) +
                           visibility (lm f RIGHT_WRIST)) / 3
           in if leftVis \<ge> rightVis then left_side else right_side
         else if shoulderSpread > 0.20 then
           (if faceVis > 0.5 then frontal else rear)
         else diagonal)"

text \<open>
  The vote counts are a \<open>Map\<close>, iterated in insertion order: an association list in
  which a new key is appended.
\<close>

fun addVote :: "CameraAngle \<Rightarrow> (CameraAngle \<times> nat) list \<Rightarrow> (CameraAngle \<times> nat) list" where
  "addVote v [] = [(v, 1)]"
| "addVote v ((k, c) # rest) = (if k = v then (k, c + 1) # rest else (k, c) # addVote v rest)"

definition bestStep :: "CameraAngle \<times> nat \<Rightarrow> CameraAngle \<times> nat \<Rightarrow> CameraAngle \<times> nat" where
  "bestStep entry best =
     (case entry of (angle, count) \<Rightarrow>
        case best of (bestAngle, bestCount) \<Rightarrow>
          if count > bestCount then (angle, count) else best)"

definition sampleVotes :: "PoseFrame list \<Rightarrow> int \<Rightarrow> CameraAngle list" where
  "sampleVotes frames stableStart =
     (let maxSamples = 15;
          sampleEnd = min (int (length frames)) (stableStart + maxSamples);
          sampleFrames = slice frames stableStart sampleEnd
      in map classifyFrame (filter shouldersVisible sampleFrames))"

definition detectCameraAngle :: "PoseFrame list \<Rightarrow> CameraAngle" where
  "detectCameraAngle frames =
     (if length frames < 5 then uncertain
      else
        let stableStart = findStableStart frames
        in if stableStart = -1 then uncertain
           else
             let votes = sampleVotes frames stableStart
             in if votes = [] then uncertain
                else
                  let voteCounts = fold addVote votes [];
                      (bestAngle, bestCount) = fold bestStep voteCounts (uncertain, 0);
                      conf = real bestCount / real (length votes)
                  in if conf \<ge> 0.6 then bestAngle else uncertain)"

section \<open>Exercise type detection\<close>

definition hipsUsable :: "PoseFrame \<Rightarrow> bool" where
  "hipsUsable f \<longleftrightarrow>
     \<not> (visibility (lm f LEFT_HIP) < 0.3 \<or> visibility (lm f RIGHT_HIP) < 0.3)"

definition avgHipX :: "PoseFrame \<Rightarrow> real" where
  "avgHipX f = (px (lm f LEFT_HIP) + px (lm f RIGHT_HIP)) / 2"

definition frameKneeAngles :: "PoseFrame \<Rightarrow> real list" where
  "frameKneeAngles f =
     (let lh = lm f LEFT_HIP; rh = lm f RIGHT_HIP;
          lk = lm f LEFT_KNEE; rk = lm f RIGHT_KNEE;
          la = lm f LEFT_ANKLE; ra = lm f RIGHT_ANKLE
      in (if visibility lk > 0.3 \<and> visibility la > 0.3 then [angleBetween lh lk la] else []) @
         (if visibility rk > 0.3 \<and> visibility ra > 0.3 then [angleBetween rh rk ra] else []))"

definition valueRange :: "real list \<Rightarrow> real" where
  "valueRange xs = mathMax xs - mathMin xs"

definition detectExerciseType :: "PoseFrame list \<Rightarrow> ExerciseType" where
  "detectExerciseType frames =
     (if length frames < 4 then unknown
      else
        let usable = filter hipsUsable frames;
            hipYValues = map avgHipY usable;
            hipXValues = map avgHipX usable;
            kneeAngles = concat (map frameKneeAngles usable)
        in if length hipYValues < 2 then unknown
           else
             let hipYRange = valueRange hipYValues;
                 hipXRange = valueRange hipXValues;
                 kneeAngleRange = (if length kneeAngles > 0 then valueRange kneeAngles else 0)
             in if hipYRange > 0.1 \<and> kneeAngleRange > 30 then squat
                else if hipYRange > 0.08 \<and> hipXRange > 0.05 \<and> kneeAngleRange < 30 then deadlift
                else if hipYRange > 0.05 then squat
                else other)"
section \<open>Specification predicates and test data\<close>

definition validScore :: "MetricScore \<Rightarrow> bool" where
  "validScore m \<longleftrightarrow>
     0 \<le> score m \<and> score m \<le> 100 \<and>
     (rating m = green) = (score m \<ge> 80) \<and>
     (rating m = yellow) = (50 \<le> score m \<and> score m < 80) \<and>
     (rating m = red) = (score m < 50)"


definition tempoRange :: "real \<Rightarrow> bool" where
  "tempoRange sc \<longleftrightarrow> 0 \<le> sc \<and> sc \<le> 100"


text \<open>A rep used to instantiate the theorems below.\<close>

definition sampleRep :: DetectedRep where
  "sampleRep = \<lparr> startFrame = 0, endFrame = 9, bottomFrame = 4 \<rparr>"

text \<open>Every object of the store is a valid score.\<close>

definition heapValid :: "heap \<Rightarrow> bool" where
  "heapValid h \<longleftrightarrow> list_all validScore h"

text \<open>
  The range of the per-frame average hip height over a non-empty clip, in the words of
  the specification.
\<close>

definition hipRange :: "PoseFrame list \<Rightarrow> real" where
  "hipRange frames = Max (set (map avgHipY frames)) - Min (set (map avgHipY frames))"

text \<open>Test frames: every landmark at \<open>(0, y)\<close> and fully visible.\<close>

definition mkFrame :: "real \<Rightarrow> real \<Rightarrow> PoseFrame" where
  "mkFrame t v =
     \<lparr> timestamp = t,
       landmarks = replicate 33 \<lparr> px = 0, py = v, pz = 0, visibility = 1 \<rparr> \<rparr>"

definition twoFrames :: "PoseFrame list" where
  "twoFrames = [mkFrame 0 (1 / 2), mkFrame 1 (7 / 10)]"

definition stillFrames :: "PoseFrame list" where
  "stillFrames = [mkFrame 0 (1 / 2), mkFrame 1 (501 / 1000)]"

text \<open>
  The two readings of "the median-scored rep" of a non-empty list: the lower median, as
  the specification words it, and the element at index \<open>n div 2\<close> of the ascending order,
  which is the upper median when \<open>n\<close> is even.
\<close>

definition lowerMedian :: "MetricScore list \<Rightarrow> MetricScore" where
  "lowerMedian scores = sort_key score scores ! ((length scores - 1) div 2)"

definition upperMedian :: "MetricScore list \<Rightarrow> MetricScore" where
  "upperMedian scores = sort_key score scores ! (length scores div 2)"

definition goodSuffix :: "MetricScore list \<Rightarrow> string" where
  "goodSuffix scores =
     (if length scores > 1 then
        '' ('' @ showNat (length (filter (\<lambda>s. score s \<ge> 80) scores)) @ ''/'' @
        showNat (length scores) @ '' reps rated good)''
      else [])"

definition meanScore :: "MetricScore list \<Rightarrow> real" where
  "meanScore scores = real_of_int (sum_list (map score scores)) / real (length scores)"

definition lowRep :: MetricScore where
  "lowRep = \<lparr> score = 10, rating = red, summary = ''low'', issueFrames = [3, 4],
              confidence = high \<rparr>"

definition highRep :: MetricScore where
  "highRep = \<lparr> score = 90, rating = green, summary = ''high'', issueFrames = [4],
               confidence = high \<rparr>"

text \<open>
  The quantities of the exercise classifier in the words of the specification: ranges
  (maximum minus minimum) over the frames whose hips are both visible with at least 0.3.
\<close>

definition usableFrames :: "PoseFrame list \<Rightarrow> PoseFrame list" where
  "usableFrames frames =
     filter (\<lambda>f. visibility (lm f LEFT_HIP) \<ge> 0.3 \<and> visibility (lm f RIGHT_HIP) \<ge> 0.3) frames"

definition rangeOf :: "real list \<Rightarrow> real" where
  "rangeOf xs = Max (set xs) - Min (set xs)"

definition hipYRange :: "PoseFrame list \<Rightarrow> real" where
  "hipYRange frames = rangeOf (map avgHipY (usableFrames frames))"

definition hipXRange :: "PoseFrame list \<Rightarrow> real" where
  "hipXRange frames = rangeOf (map avgHipX (usableFrames frames))"

definition kneeAngleRange :: "PoseFrame list \<Rightarrow> real" where
  "kneeAngleRange frames =
     (let angles = concat (map frameKneeAngles (usableFrames frames))
      in if angles = [] then 0 else rangeOf angles)"

definition threeFrames :: "PoseFrame list" where
  "threeFrames = [mkFrame 0 (1 / 2), mkFrame 1 (7 / 10), mkFrame 2 (1 / 2)]"

definition fourFrames :: "PoseFrame list" where
  "fourFrames = [mkFrame 0 (1 / 2), mkFrame 1 (7 / 10), mkFrame 2 (1 / 2), mkFrame 3 (7 / 10)]"

text \<open>The displacement of a landmark from its previous position, in the image plane.\<close>

definition displacement :: "Landmark \<Rightarrow> Landmark \<Rightarrow> real" where
  "displacement l prev = sqrt ((px l - px prev)\<^sup>2 + (py l - py prev)\<^sup>2)"

definition lmAt :: "real \<Rightarrow> real \<Rightarrow> real \<Rightarrow> real \<Rightarrow> Landmark" where
  "lmAt a b c v = \<lparr> px = a, py = b, pz = c, visibility = v \<rparr>"

text \<open>Test clips given by their average hip heights, one frame per second.\<close>

definition hipFrames :: "real list \<Rightarrow> PoseFrame list" where
  "hipFrames ys = map (\<lambda>(i, v). mkFrame (real i) v) (enumerate 0 ys)"

definition twoReps :: "PoseFrame list" where
  "twoReps = hipFrames [3 / 5, 4 / 5, 1 / 2, 7 / 10, 4 / 5, 1 / 2, 3 / 5, 4 / 5]"

text \<open>The smoothed hip signal of a clip and the bottoms found in it.\<close>

definition smoothedHip :: "PoseFrame list \<Rightarrow> real list" where
  "smoothedHip frames = movingAverage (map avgHipY frames) 5"

definition bottomsOf :: "PoseFrame list \<Rightarrow> int list" where
  "bottomsOf frames = findBottoms (smoothedHip frames)"

text \<open>
  The camera-angle classifier in the words of the specification: a stable run is five
  consecutive frames with both shoulders visible with at least 0.3, and the votes are
  the labels of the visible frames among up to fifteen frames from the run's start.
\<close>

definition bothShouldersVisible :: "PoseFrame \<Rightarrow> bool" where
  "bothShouldersVisible f \<longleftrightarrow>
     visibility (lm f LEFT_SHOULDER) \<ge> 0.3 \<and> visibility (lm f RIGHT_SHOULDER) \<ge> 0.3"

definition stableRun :: "PoseFrame list \<Rightarrow> nat \<Rightarrow> bool" where
  "stableRun frames i \<longleftrightarrow>
     i + 5 \<le> length frames \<and> list_all bothShouldersVisible (take 5 (drop i frames))"

definition firstStableRun :: "PoseFrame list \<Rightarrow> nat \<Rightarrow> bool" where
  "firstStableRun frames i \<longleftrightarrow>
     stableRun frames i \<and> list_all (\<lambda>j. \<not> stableRun frames j) [0..<i]"

definition noStableRun :: "PoseFrame list \<Rightarrow> bool" where
  "noStableRun frames \<longleftrightarrow> list_all (\<lambda>j. \<not> stableRun frames j) [0..<length frames]"

definition shoulderSpread :: "PoseFrame \<Rightarrow> real" where
  "shoulderSpread f = \<bar>px (lm f LEFT_SHOULDER) - px (lm f RIGHT_SHOULDER)\<bar>"

definition leftArmVisibility :: "PoseFrame \<Rightarrow> real" where
  "leftArmVisibility f =
     (visibility (lm f LEFT_SHOULDER) + visibility (lm f LEFT_ELBOW) +
      visibility (lm f LEFT_WRIST)) / 3"

definition rightArmVisibility :: "PoseFrame \<Rightarrow> real" where
  "rightArmVisibility f =
     (visibility (lm f RIGHT_SHOULDER) + visibility (lm f RIGHT_ELBOW) +
      visibility (lm f RIGHT_WRIST)) / 3"

definition faceVisibility :: "PoseFrame \<Rightarrow> real" where
  "faceVisibility f =
     (visibility (lm f NOSE) + visibility (lm f LEFT_EYE) + visibility (lm f RIGHT_EYE)) / 3"

definition frameLabel :: "PoseFrame \<Rightarrow> CameraAngle" where
  "frameLabel f =
     (if shoulderSpread f < 0.08 then
        (if leftArmVisibility f \<ge> rightArmVisibility f then left_side else right_side)
      else if shoulderSpread f > 0.20 then
        (if faceVisibility f > 0.5 then frontal else rear)
      else diagonal)"

definition windowVotes :: "PoseFrame list \<Rightarrow> nat \<Rightarrow> CameraAngle list" where
  "windowVotes frames i =
     map frameLabel (filter bothShouldersVisible (take 15 (drop i frames)))"

text \<open>A label holds at least 60% of the votes.\<close>

definition holdsMajority :: "CameraAngle list \<Rightarrow> CameraAngle \<Rightarrow> bool" where
  "holdsMajority votes a \<longleftrightarrow> 5 * count_list votes a \<ge> 3 * length votes"

definition sideClip :: "PoseFrame list" where
  "sideClip = hipFrames [1 / 2, 1 / 2, 1 / 2, 1 / 2, 1 / 2]"

text \<open>
  The buffer of \<open>trimFramesToReps\<close> in frames, and the first frame it keeps, for a clip
  with a non-zero average frame duration.
\<close>

definition bufferFrames :: "PoseFrame list \<Rightarrow> int" where
  "bufferFrames frames = \<lceil>BUFFER_SECONDS / avgFrameDuration frames\<rceil>"

definition trimStart :: "PoseFrame list \<Rightarrow> int" where
  "trimStart frames = fst (trimBounds frames (detectReps frames))"

text \<open>
  Two signals agree on a range of indices up to a shift: the second is the first, read
  \<open>a\<close> places further on.
\<close>

definition agree :: "real list \<Rightarrow> real list \<Rightarrow> int \<Rightarrow> int \<Rightarrow> int \<Rightarrow> bool" where
  "agree sm' sm a lo hi \<longleftrightarrow> list_all (\<lambda>j. sm' ! nat j = sm ! nat (j + a)) [lo..hi]"

text \<open>
  A clip sampled at \<open>fps\<close> frames per second with the given average hip heights, and the
  clip used against the round trip: the lifter rises from a crouch, stands for two
  seconds and squats once.
\<close>

definition clipAt :: "real \<Rightarrow> real list \<Rightarrow> PoseFrame list" where
  "clipAt fps ys = map (\<lambda>(i, v). mkFrame (real i / fps) v) (enumerate 0 ys)"

definition cutHips :: "real list" where
  "cutHips =
     [9 / 10, 1 / 2, 1 / 2, 1 / 2, 1 / 2, 7 / 10, 2 / 5, 2 / 5,
      41 / 100, 41 / 100, 41 / 100, 41 / 100, 41 / 100, 41 / 100, 41 / 100, 41 / 100,
      41 / 100, 41 / 100, 41 / 100,
      2 / 5, 2 / 5, 2 / 5, 2 / 5, 2 / 5,
      1 / 2, 3 / 5, 7 / 10, 3 / 5, 1 / 2, 2 / 5]"

definition cutClip :: "PoseFrame list" where
  "cutClip = clipAt 8 cutHips"

definition cutSmoothed :: "real list" where
  "cutSmoothed =
     [19 / 30, 3 / 5, 29 / 50, 27 / 50, 13 / 25, 1 / 2, 241 / 500, 58 / 125, 203 / 500,
      51 / 125, 41 / 100, 41 / 100, 41 / 100, 41 / 100, 41 / 100, 41 / 100, 41 / 100,
      51 / 125, 203 / 500, 101 / 250, 201 / 500, 2 / 5, 21 / 50, 23 / 50, 13 / 25,
      14 / 25, 29 / 50, 14 / 25, 11 / 20, 1 / 2]"

definition cutSmoothedTrimmed :: "real list" where
  "cutSmoothedTrimmed =
     [1 / 2, 1 / 2, 27 / 50, 13 / 25, 1 / 2, 241 / 500, 58 / 125, 203 / 500, 51 / 125,
      41 / 100, 41 / 100, 41 / 100, 41 / 100, 41 / 100, 41 / 100, 41 / 100, 51 / 125,
      203 / 500, 101 / 250, 201 / 500, 2 / 5, 21 / 50, 23 / 50, 13 / 25, 14 / 25,
      29 / 50, 14 / 25, 11 / 20, 1 / 2]"
section \<open>Every scorer returns a valid score\<close>

lemma validScore_getRating:
  "0 \<le> s \<Longrightarrow> s \<le> 100 \<Longrightarrow>
   validScore \<lparr> score = s, rating = getRating s, summary = t, issueFrames = fs, confidence = c \<rparr>"
  by (simp add: validScore_def getRating_def)

lemma validScore_real:
  assumes "0 \<le> sc" and "sc \<le> 100"
  shows "validScore \<lparr> score = round sc, rating = getRating (round sc), summary = t,
           issueFrames = fs, confidence = c \<rparr>"
proof (rule validScore_getRating)
  show "0 \<le> round sc" using round_mono [OF assms(1)] by simp
  show "round sc \<le> 100" using round_mono [OF assms(2)] by simp
qed

lemma validScore_clamp:
  assumes "0 \<le> lo" and "lo \<le> hi" and "hi \<le> 100"
  shows "validScore \<lparr> score = round (clamp v lo hi), rating = getRating (round (clamp v lo hi)),
           summary = t, issueFrames = fs, confidence = c \<rparr>"
  using assms by (intro validScore_real) (simp_all add: clamp_def)

lemma validScore_bands:
  "validScore \<lparr> score = round (clamp v 80 100), rating = getRating (round (clamp v 80 100)),
     summary = t, issueFrames = fs, confidence = c \<rparr>"
  "validScore \<lparr> score = round (clamp v 50 79), rating = getRating (round (clamp v 50 79)),
     summary = t, issueFrames = fs, confidence = c \<rparr>"
  "validScore \<lparr> score = round (clamp v 0 49), rating = getRating (round (clamp v 0 49)),
     summary = t, issueFrames = fs, confidence = c \<rparr>"
  by (rule validScore_clamp; simp)+

lemma validScore_penalised:
  "validScore \<lparr> score = round (max 0 (clamp v 80 100 - 10)),
     rating = getRating (round (max 0 (clamp v 80 100 - 10))),
     summary = t, issueFrames = fs, confidence = c \<rparr>"
  "validScore \<lparr> score = round (max 0 (clamp v 50 79 - 10)),
     rating = getRating (round (max 0 (clamp v 50 79 - 10))),
     summary = t, issueFrames = fs, confidence = c \<rparr>"
  "validScore \<lparr> score = round (max 0 (clamp v 0 49 - 10)),
     rating = getRating (round (max 0 (clamp v 0 49 - 10))),
     summary = t, issueFrames = fs, confidence = c \<rparr>"
  by (rule validScore_real; simp add: clamp_def)+

lemma validScore_const:
  "validScore \<lparr> score = 50, rating = yellow, summary = t, issueFrames = fs, confidence = c \<rparr>"
  "validScore \<lparr> score = 75, rating = yellow, summary = t, issueFrames = fs, confidence = c \<rparr>"
  "validScore \<lparr> score = 100, rating = green, summary = t, issueFrames = fs, confidence = c \<rparr>"
  "validScore \<lparr> score = 0, rating = red, summary = t, issueFrames = fs, confidence = c \<rparr>"
  by (simp_all add: validScore_def)

lemmas band_intros =
  conjI impI allI validScore_bands validScore_penalised validScore_const

lemma scoreDepth_valid: "validScore (scoreDepth frames rep)"
  by (simp only: scoreDepth_def Let_def prod.case split: if_split prod.split) (intro band_intros)

lemma scoreKneeTracking_valid: "validScore (scoreKneeTracking frames rep)"
  by (simp only: scoreKneeTracking_def Let_def prod.case split: if_split prod.split) (intro band_intros)

lemma scoreBackAngle_valid: "validScore (scoreBackAngle frames rep)"
  by (simp only: scoreBackAngle_def Let_def prod.case split: if_split prod.split) (intro band_intros)

lemma scoreBarPath_valid: "validScore (scoreBarPath frames rep)"
  by (simp only: scoreBarPath_def Let_def prod.case split: if_split prod.split) (intro band_intros)

lemma scoreSymmetry_valid: "validScore (scoreSymmetry frames rep)"
  by (simp only: scoreSymmetry_def Let_def prod.case split: if_split prod.split) (intro band_intros)

lemma scoreButtWink_valid: "validScore (scoreButtWink frames rep)"
  by (simp only: scoreButtWink_def Let_def prod.case split: if_split prod.split) (intro band_intros)

lemma scoreHeelRise_valid: "validScore (scoreHeelRise frames rep)"
  by (simp only: scoreHeelRise_def Let_def prod.case split: if_split prod.split) (intro band_intros)

lemma scoreStanceWidth_valid: "validScore (scoreStanceWidth frames rep)"
  by (simp only: scoreStanceWidth_def Let_def prod.case split: if_split prod.split) (intro band_intros)

lemma scoreHipShift_valid: "validScore (scoreHipShift frames rep)"
  by (simp only: scoreHipShift_def Let_def prod.case split: if_split prod.split) (intro band_intros)

lemma scoreKneeValgus_valid: "validScore (scoreKneeValgus frames rep)"
  by (simp only: scoreKneeValgus_def Let_def prod.case split: if_split prod.split) (intro band_intros)

lemma scoreKneeTravel_valid: "validScore (scoreKneeTravel frames rep)"
  by (simp only: scoreKneeTravel_def Let_def prod.case split: if_split prod.split) (intro band_intros)

lemma scoreDepthConsistency_valid: "validScore (scoreDepthConsistency frames rs)"
  by (simp only: scoreDepthConsistency_def Let_def prod.case split: if_split prod.split) (intro band_intros)

lemma scoreThoracicRounding_valid: "validScore (scoreThoracicRounding frames rep)"
  by (simp only: scoreThoracicRounding_def Let_def prod.case split: if_split prod.split) (intro band_intros)

lemma scoreHipRiseRate_valid: "validScore (scoreHipRiseRate frames rep)"
  by (simp only: scoreHipRiseRate_def Let_def prod.case split: if_split prod.split) (intro band_intros)

lemma scoreReversalControl_valid: "validScore (scoreReversalControl frames rep)"
  by (simp only: scoreReversalControl_def Let_def prod.case split: if_split prod.split) (intro band_intros)

lemma scoreStanceWidthShift_valid: "validScore (scoreStanceWidthShift frames rep)"
  by (simp only: scoreStanceWidthShift_def Let_def prod.case split: if_split prod.split) (intro band_intros)

lemma scoreHeadPosition_valid: "validScore (scoreHeadPosition frames rep)"
  by (simp only: scoreHeadPosition_def Let_def prod.case split: if_split prod.split) (intro band_intros)

lemma tempoTotalCheck_range: "tempoRange (fst (tempoTotalCheck rep d))"
  by (simp add: tempoTotalCheck_def tempoRange_def)

lemma tempoDescentCheck_range: "tempoRange (fst st) \<Longrightarrow> tempoRange (fst (tempoDescentCheck d st))"
  by (cases st) (auto simp add: tempoDescentCheck_def tempoRange_def min_def)

lemma tempoAscentCheck_range: "tempoRange (fst st) \<Longrightarrow> tempoRange (fst (tempoAscentCheck d st))"
  by (cases st) (auto simp add: tempoAscentCheck_def tempoRange_def min_def)

lemma tempoRatioCheck_range: "tempoRange (fst st) \<Longrightarrow> tempoRange (fst (tempoRatioCheck d e st))"
  by (cases st) (auto simp add: tempoRatioCheck_def tempoRange_def Let_def min_def)

lemma scoreTempo_valid: "validScore (scoreTempo frames rep)"
proof -
  define ecc where "ecc = timestamp (frameAt frames (bottomFrame rep)) - timestamp (frameAt frames (startFrame rep))"
  define con where "con = timestamp (frameAt frames (endFrame rep)) - timestamp (frameAt frames (bottomFrame rep))"
  define tot where "tot = timestamp (frameAt frames (endFrame rep)) - timestamp (frameAt frames (startFrame rep))"
  obtain sc1 issues1 frameIssues where t1: "tempoTotalCheck rep tot = (sc1, issues1, frameIssues)"
    by (cases "tempoTotalCheck rep tot") auto
  obtain sc issues where t4: "tempoRatioCheck ecc con (tempoAscentCheck con (tempoDescentCheck ecc (sc1, issues1))) = (sc, issues)"
    by (cases "tempoRatioCheck ecc con (tempoAscentCheck con (tempoDescentCheck ecc (sc1, issues1)))") auto
  have "tempoRange sc1" using tempoTotalCheck_range [of rep tot] t1 by simp
  then have "tempoRange (fst (tempoRatioCheck ecc con (tempoAscentCheck con (tempoDescentCheck ecc (sc1, issues1)))))"
    by (intro tempoRatioCheck_range tempoAscentCheck_range tempoDescentCheck_range) simp
  then have "0 \<le> sc" "sc \<le> 100" using t4 by (simp_all add: tempoRange_def)
  then show ?thesis
    unfolding scoreTempo_def Let_def ecc_def [symmetric] con_def [symmetric] tot_def [symmetric] t1 t4 prod.case
    by (rule validScore_real)
qed

section \<open>The store during the analysis\<close>

lemma perRepScorer_valid:
  "perRepScorer key = Some scorer \<Longrightarrow> validScore (scorer frames rep)"
  by (cases key)
    (auto simp: scoreDepth_valid scoreKneeTracking_valid scoreBackAngle_valid scoreBarPath_valid
      scoreSymmetry_valid scoreButtWink_valid scoreTempo_valid scoreHeelRise_valid
      scoreStanceWidth_valid scoreHipShift_valid scoreKneeValgus_valid scoreKneeTravel_valid
      scoreThoracicRounding_valid scoreHipRiseRate_valid scoreReversalControl_valid
      scoreStanceWidthShift_valid scoreHeadPosition_valid)

lemma all_metricKeys: "key \<in> set metricKeys"
  by (cases key) (simp_all add: metricKeys_def)

lemma heapValid_alloc:
  "heapValid h \<Longrightarrow> validScore m \<Longrightarrow> heapValid (snd (alloc m h))"
  by (simp add: heapValid_def alloc_def)

lemma validScore_confidence: "validScore (m\<lparr>confidence := c\<rparr>) = validScore m"
  by (simp add: validScore_def)

lemma heapValid_setConfidence: "heapValid h \<Longrightarrow> heapValid (setConfidence r c h)"
proof -
  assume hv: "heapValid h"
  show ?thesis
  proof (cases "r < length h")
    case True
    have "validScore ((h ! r)\<lparr>confidence := c\<rparr>)"
      using hv True by (simp add: heapValid_def list_all_length validScore_confidence)
    then show ?thesis
      using hv True by (auto simp: heapValid_def setConfidence_def list_all_length nth_list_update)
  next
    case False
    then show ?thesis using hv by (simp add: setConfidence_def list_update_beyond)
  qed
qed

lemma length_setConfidence [simp]: "length (setConfidence r c h) = length h"
  by (simp add: setConfidence_def)

lemma fold_stamp_inv:
  "heapValid h \<Longrightarrow> heapValid (fold (stampConfidence angle m) ks h)"
  "length (fold (stampConfidence angle m) ks h) = length h"
  by (induction ks arbitrary: h) (simp_all add: stampConfidence_def heapValid_setConfidence)

lemma initField_inv:
  assumes "initField frames rep dcRef key (m, h) = (m', h')"
    and "heapValid h" and "dcRef < length h"
  shows "heapValid h' \<and> length h \<le> length h' \<and> m' key < length h' \<and>
         (\<forall>k. k \<noteq> key \<longrightarrow> m' k = m k)"
proof (cases "perRepScorer key")
  case None
  then show ?thesis using assms by (auto simp: initField_def)
next
  case (Some scorer)
  then have "validScore (scorer frames rep)" by (rule perRepScorer_valid)
  then show ?thesis
    using assms Some by (auto simp: initField_def alloc_def heapValid_def)
qed

lemma fold_initField_inv:
  assumes "fold (initField frames rep dcRef) ks (m, h) = (m', h')"
    and "heapValid h" and "dcRef < length h"
  shows "heapValid h' \<and> length h \<le> length h' \<and>
         (\<forall>k. k \<in> set ks \<or> m k < length h \<longrightarrow> m' k < length h')"
  using assms
proof (induction ks arbitrary: m h)
  case Nil
  then show ?case by simp
next
  case (Cons key ks)
  obtain m1 h1 where step: "initField frames rep dcRef key (m, h) = (m1, h1)"
    by (cases "initField frames rep dcRef key (m, h)") auto
  have inv1: "heapValid h1" "length h \<le> length h1" "m1 key < length h1"
    "\<forall>k. k \<noteq> key \<longrightarrow> m1 k = m k"
    using initField_inv [OF step Cons.prems(2,3)] by auto
  have rest: "fold (initField frames rep dcRef) ks (m1, h1) = (m', h')"
    using Cons.prems(1) step by simp
  have "dcRef < length h1" using Cons.prems(3) inv1(2) by simp
  from Cons.IH [OF rest inv1(1) this]
  have ih: "heapValid h'" "length h1 \<le> length h'"
    "\<forall>k. k \<in> set ks \<or> m1 k < length h1 \<longrightarrow> m' k < length h'" by auto
  have "m' k < length h'" if "k \<in> set (key # ks) \<or> m k < length h" for k
  proof (cases "k = key")
    case True
    then show ?thesis using ih(3) inv1(3) by blast
  next
    case False
    then have "k \<in> set ks \<or> m1 k < length h1"
      using that inv1(2,4) by auto
    then show ?thesis using ih(3) by blast
  qed
  then show ?case using ih(1,2) inv1(2) by auto
qed

lemma fold_initField_dc:
  assumes "perRepScorer key = None" and "key \<in> set ks \<or> fst st key = dcRef"
  shows "fst (fold (initField frames rep dcRef) ks st) key = dcRef"
  using assms(2)
proof (induction ks arbitrary: st)
  case Nil
  then show ?case by simp
next
  case (Cons k ks)
  obtain m h where st: "st = (m, h)" by (cases st)
  have "fst (initField frames rep dcRef k st) key = dcRef" if "k = key \<or> fst st key = dcRef"
    using that assms(1) st by (auto simp: initField_def alloc_def split: option.splits)
  then have "key \<in> set ks \<or> fst (initField frames rep dcRef k st) key = dcRef"
    using Cons.prems by auto
  then have "fst (fold (initField frames rep dcRef) ks (initField frames rep dcRef k st)) key = dcRef"
    by (rule Cons.IH)
  then show ?case by simp
qed

lemma analyzeRep_inv:
  assumes "analyzeRep frames angle dcRef rep idx h = (rd, h')"
    and "heapValid h" and "dcRef < length h"
  shows "heapValid h' \<and> length h \<le> length h' \<and> (\<forall>k. metrics rd k < length h') \<and>
         metrics rd DepthConsistency = dcRef"
proof -
  obtain m h1 where f: "fold (initField frames rep dcRef) metricKeys (\<lambda>k. 0, h) = (m, h1)"
    by (cases "fold (initField frames rep dcRef) metricKeys (\<lambda>k. 0, h)") auto
  have rd: "metrics rd = m" and h': "h' = fold (stampConfidence angle m) metricKeys h1"
    using assms(1) f by (auto simp: analyzeRep_def)
  have inv: "heapValid h1" "length h \<le> length h1" "\<forall>k. m k < length h1"
    using fold_initField_inv [OF f assms(2,3)] all_metricKeys by auto
  have "m DepthConsistency = dcRef"
    using fold_initField_dc [of DepthConsistency metricKeys "(\<lambda>k. 0, h)" dcRef frames rep] f
      all_metricKeys by simp
  then show ?thesis
    using inv rd h' by (simp add: fold_stamp_inv)
qed

lemma analyzeReps_inv:
  assumes "analyzeReps frames angle dcRef rs idx h = (rds, h')"
    and "heapValid h" and "dcRef < length h"
  shows "heapValid h' \<and> length h \<le> length h' \<and> length rds = length rs \<and>
         (\<forall>rd \<in> set rds. (\<forall>k. metrics rd k < length h') \<and> metrics rd DepthConsistency = dcRef)"
  using assms
proof (induction rs arbitrary: idx h rds h')
  case Nil
  then show ?case by simp
next
  case (Cons rep rest)
  obtain rd h1 where a: "analyzeRep frames angle dcRef rep idx h = (rd, h1)"
    by (cases "analyzeRep frames angle dcRef rep idx h") auto
  obtain rds' h2 where b: "analyzeReps frames angle dcRef rest (idx + 1) h1 = (rds', h2)"
    by (cases "analyzeReps frames angle dcRef rest (idx + 1) h1") auto
  have res: "rds = rd # rds'" "h' = h2" using Cons.prems(1) a b by auto
  have inv1: "heapValid h1" "length h \<le> length h1" "\<forall>k. metrics rd k < length h1"
    "metrics rd DepthConsistency = dcRef"
    using analyzeRep_inv [OF a Cons.prems(2,3)] by auto
  have "dcRef < length h1" using Cons.prems(3) inv1(2) by simp
  from Cons.IH [OF b inv1(1) this]
  have ih: "heapValid h2" "length h1 \<le> length h2" "length rds' = length rest"
    "\<forall>rd \<in> set rds'. (\<forall>k. metrics rd k < length h2) \<and> metrics rd DepthConsistency = dcRef"
    by auto
  have "\<forall>k. metrics rd k < length h2"
    using inv1(3) ih(2) by (meson less_le_trans)
  then show ?case using res ih inv1 by auto
qed

lemma analyzeReps_frames:
  assumes "analyzeReps frames angle dcRef rs idx h = (rds, h')"
  shows "map (\<lambda>rd. (startFrame rd, endFrame rd, bottomFrame rd)) rds =
         map (\<lambda>r. (startFrame r, endFrame r, bottomFrame r)) rs"
  using assms
proof (induction rs arbitrary: idx h rds h')
  case Nil
  then show ?case by simp
next
  case (Cons rep rest)
  obtain rd h1 where a: "analyzeRep frames angle dcRef rep idx h = (rd, h1)"
    by (cases "analyzeRep frames angle dcRef rep idx h") auto
  obtain rds' h2 where b: "analyzeReps frames angle dcRef rest (idx + 1) h1 = (rds', h2)"
    by (cases "analyzeReps frames angle dcRef rest (idx + 1) h1") auto
  have res: "rds = rd # rds'" using Cons.prems a b by auto
  have "startFrame rd = startFrame rep" "endFrame rd = endFrame rep"
    "bottomFrame rd = bottomFrame rep"
    using a by (auto simp: analyzeRep_def split: prod.splits)
  then show ?case using res Cons.IH [OF b] by simp
qed

section \<open>Aggregated scores and the result of the analysis\<close>

lemma sum_list_score_bounds:
  assumes "list_all validScore scores"
  shows "0 \<le> sum_list (map score scores) \<and> sum_list (map score scores) \<le> 100 * int (length scores)"
  using assms by (induction scores) (auto simp: validScore_def)

lemma averageMetricScores_valid:
  assumes "list_all validScore scores"
  shows "validScore (averageMetricScores scores)"
proof (cases "scores = []")
  case True
  then show ?thesis by (simp add: averageMetricScores_def validScore_const)
next
  case False
  define avg where "avg = real_of_int (sum_list (map score scores)) / real (length scores)"
  have n: "0 < real (length scores)" using False by simp
  have i: "0 \<le> sum_list (map score scores)"
    "sum_list (map score scores) \<le> 100 * int (length scores)"
    using sum_list_score_bounds [OF assms] by simp_all
  have "real_of_int (sum_list (map score scores)) \<le> real_of_int (100 * int (length scores))"
    using i(2) by (simp only: of_int_le_iff)
  then have b: "0 \<le> real_of_int (sum_list (map score scores))"
    "real_of_int (sum_list (map score scores)) \<le> 100 * real (length scores)"
    using i(1) by simp_all
  have "0 \<le> avg" using b(1) n by (simp add: avg_def)
  moreover have "avg \<le> 100" using b(2) n by (simp add: avg_def pos_divide_le_eq)
  ultimately show ?thesis
    using False unfolding averageMetricScores_def Let_def avg_def [symmetric]
    by (simp only: if_False) (rule validScore_real)
qed

lemma overallField_inv:
  assumes "overallField rs dcRef key (m, h) = (m', h')"
    and "heapValid h" and "dcRef < length h"
    and "\<forall>rd \<in> set rs. \<forall>k. metrics rd k < length h"
  shows "heapValid h' \<and> length h \<le> length h' \<and> m' key < length h' \<and>
         (\<forall>k. k \<noteq> key \<longrightarrow> m' k = m k)"
proof (cases "perRepScorer key")
  case None
  then show ?thesis using assms by (auto simp: overallField_def)
next
  case (Some scorer)
  have "validScore (h ! metrics rd key)" if "rd \<in> set rs" for rd
  proof -
    have "metrics rd key < length h" using assms(4) that by simp
    then show ?thesis using assms(2) by (simp add: heapValid_def list_all_length)
  qed
  then have "list_all validScore (map (\<lambda>r. h ! metrics r key) rs)"
    by (simp add: list_all_iff)
  then have "validScore (averageMetricScores (map (\<lambda>r. h ! metrics r key) rs))"
    by (rule averageMetricScores_valid)
  then show ?thesis
    using assms Some by (auto simp: overallField_def alloc_def heapValid_def)
qed

lemma fold_overallField_inv:
  assumes "fold (overallField rs dcRef) ks (m, h) = (m', h')"
    and "heapValid h" and "dcRef < length h"
    and "\<forall>rd \<in> set rs. \<forall>k. metrics rd k < length h"
  shows "heapValid h' \<and> length h \<le> length h' \<and>
         (\<forall>k. k \<in> set ks \<or> m k < length h \<longrightarrow> m' k < length h')"
  using assms
proof (induction ks arbitrary: m h)
  case Nil
  then show ?case by simp
next
  case (Cons key ks)
  obtain m1 h1 where step: "overallField rs dcRef key (m, h) = (m1, h1)"
    by (cases "overallField rs dcRef key (m, h)") auto
  have inv1: "heapValid h1" "length h \<le> length h1" "m1 key < length h1"
    "\<forall>k. k \<noteq> key \<longrightarrow> m1 k = m k"
    using overallField_inv [OF step Cons.prems(2,3,4)] by auto
  have rest: "fold (overallField rs dcRef) ks (m1, h1) = (m', h')"
    using Cons.prems(1) step by simp
  have dc1: "dcRef < length h1" using Cons.prems(3) inv1(2) by simp
  have refs1: "\<forall>rd \<in> set rs. \<forall>k. metrics rd k < length h1"
    using Cons.prems(4) inv1(2) by (meson less_le_trans)
  from Cons.IH [OF rest inv1(1) dc1 refs1]
  have ih: "heapValid h'" "length h1 \<le> length h'"
    "\<forall>k. k \<in> set ks \<or> m1 k < length h1 \<longrightarrow> m' k < length h'" by auto
  have "m' k < length h'" if "k \<in> set (key # ks) \<or> m k < length h" for k
  proof (cases "k = key")
    case True
    then show ?thesis using ih(3) inv1(3) by blast
  next
    case False
    then have "k \<in> set ks \<or> m1 k < length h1"
      using that inv1(2,4) by auto
    then show ?thesis using ih(3) by blast
  qed
  then show ?case using ih(1,2) inv1(2) by auto
qed

lemma fold_overallField_dc:
  assumes "perRepScorer key = None" and "key \<in> set ks \<or> fst st key = dcRef"
  shows "fst (fold (overallField rs dcRef) ks st) key = dcRef"
  using assms(2)
proof (induction ks arbitrary: st)
  case Nil
  then show ?case by simp
next
  case (Cons k ks)
  obtain m h where st: "st = (m, h)" by (cases st)
  have "fst (overallField rs dcRef k st) key = dcRef" if "k = key \<or> fst st key = dcRef"
    using that assms(1) st by (auto simp: overallField_def alloc_def split: option.splits)
  then have "key \<in> set ks \<or> fst (overallField rs dcRef k st) key = dcRef"
    using Cons.prems by auto
  then have "fst (fold (overallField rs dcRef) ks (overallField rs dcRef k st)) key = dcRef"
    by (rule Cons.IH)
  then show ?case by simp
qed

text \<open>What \<open>analyzeSquat\<close> returns, once the reps to analyse are known.\<close>

lemma analyzeSquat_result:
  assumes "analyzeSquat frames et ca = Inr (res, h)"
  obtains rta where
    "repsToAnalyze frames = Inr rta"
    "length (reps res) = length rta"
    "repCount res = int (length rta)"
    "heapValid h"
    "\<forall>rd \<in> set (reps res). (\<forall>k. metrics rd k < length h) \<and> metrics rd DepthConsistency = 0"
    "\<forall>k. overall res k < length h"
    "overall res DepthConsistency = 0"
    "map (\<lambda>rd. (startFrame rd, endFrame rd, bottomFrame rd)) (reps res) =
     map (\<lambda>r. (startFrame r, endFrame r, bottomFrame r)) rta"
proof -
  obtain rta where sel: "repsToAnalyze frames = Inr rta"
    using assms by (cases "repsToAnalyze frames") (simp_all add: analyzeSquat_def)
  define angle where "angle = (case ca of Some a \<Rightarrow> a | None \<Rightarrow> uncertain)"
  define h0 where "h0 = [scoreDepthConsistency frames rta]"
  obtain rs h1 where a: "analyzeReps frames angle 0 rta 0 h0 = (rs, h1)"
    by (cases "analyzeReps frames angle 0 rta 0 h0") auto
  obtain ov h2 where o: "fold (overallField rs 0) metricKeys (\<lambda>k. 0, h1) = (ov, h2)"
    by (cases "fold (overallField rs 0) metricKeys (\<lambda>k. 0, h1)") auto
  have res: "res = \<lparr> reps = rs, overall = ov, repCount = int (length rs),
      exerciseType = et, cameraAngle = ca \<rparr>" and h: "h = h2"
    using assms a o unfolding analyzeSquat_def sel Let_def alloc_def angle_def h0_def
    by simp_all
  have hv0: "heapValid h0" and dc0: "0 < length h0"
    by (simp_all add: h0_def heapValid_def scoreDepthConsistency_valid)
  have inv1: "heapValid h1" "length h0 \<le> length h1" "length rs = length rta"
    "\<forall>rd \<in> set rs. (\<forall>k. metrics rd k < length h1) \<and> metrics rd DepthConsistency = 0"
    using analyzeReps_inv [OF a hv0 dc0] by auto
  have dc1: "0 < length h1" using dc0 inv1(2) by (rule less_le_trans)
  have refs1: "\<forall>rd \<in> set rs. \<forall>k. metrics rd k < length h1" using inv1(4) by simp
  have inv2: "heapValid h2" "length h1 \<le> length h2" "\<forall>k. ov k < length h2"
    using fold_overallField_inv [OF o inv1(1) dc1 refs1] all_metricKeys by auto
  have ovdc: "ov DepthConsistency = 0"
    using fold_overallField_dc [of DepthConsistency metricKeys "(\<lambda>k. 0, h1)" 0 rs] o
      all_metricKeys by simp
  have refs2: "\<forall>rd \<in> set rs. (\<forall>k. metrics rd k < length h2) \<and> metrics rd DepthConsistency = 0"
    using inv1(4) inv2(2) by (meson less_le_trans)
  have fr: "map (\<lambda>rd. (startFrame rd, endFrame rd, bottomFrame rd)) rs =
      map (\<lambda>r. (startFrame r, endFrame r, bottomFrame r)) rta"
    using a by (rule analyzeReps_frames)
  show ?thesis
    using that [OF sel] res h inv1(3) inv2 ovdc refs2 fr by simp
qed

section \<open>The whole-clip fallback\<close>

lemma analyzeSquat_returns:
  assumes "repsToAnalyze frames = Inr rta"
  shows "\<exists>res h. analyzeSquat frames et ca = Inr (res, h)"
  by (simp add: analyzeSquat_def assms Let_def split: prod.split)

lemma analyzeSquat_throws:
  assumes "repsToAnalyze frames = Inl e"
  shows "analyzeSquat frames et ca = Inl e"
  by (simp add: analyzeSquat_def assms)

lemma avgHipY_mkFrame [simp]: "avgHipY (mkFrame t v) = v"
  by (simp add: avgHipY_def mkFrame_def lm_def LEFT_HIP_def RIGHT_HIP_def)

lemma mathMax_eq_Max:
  assumes "xs \<noteq> []"
  shows "mathMax xs = Max (set xs)"
proof -
  obtain a as where xs: "xs = a # as" using assms by (cases xs) auto
  show ?thesis unfolding xs mathMax_def Max.set_eq_fold by simp
qed

lemma mathMin_eq_Min:
  assumes "xs \<noteq> []"
  shows "mathMin xs = Min (set xs)"
proof -
  obtain a as where xs: "xs = a # as" using assms by (cases xs) auto
  show ?thesis unfolding xs mathMin_def Min.set_eq_fold by simp
qed

lemma deepest_inv:
  assumes "n \<le> length ys"
    and "fold (deepestStep ys) [0..int n - 1] (0, None) = (b, p)"
  shows "(n = 0 \<and> b = 0 \<and> p = None) \<or>
         (0 < n \<and> 0 \<le> b \<and> b < int n \<and> p = Some (ys ! nat b) \<and> (\<forall>j<n. ys ! j \<le> ys ! nat b))"
  using assms
proof (induction n arbitrary: b p)
  case 0
  then show ?case by simp
next
  case (Suc n)
  obtain b0 p0 where prev: "fold (deepestStep ys) [0..int n - 1] (0, None) = (b0, p0)"
    by (cases "fold (deepestStep ys) [0..int n - 1] (0, None)") auto
  have split: "[0..int n] = [0..int n - 1] @ [int n]"
    using upto_rec2 [of 0 "int n"] by simp
  have "fold (deepestStep ys) [0..int n] (0, None) = (b, p)"
    using Suc.prems(2) by simp
  then have step: "deepestStep ys (int n) (b0, p0) = (b, p)"
    unfolding split using prev by simp
  have ih: "(n = 0 \<and> b0 = 0 \<and> p0 = None) \<or>
         (0 < n \<and> 0 \<le> b0 \<and> b0 < int n \<and> p0 = Some (ys ! nat b0) \<and> (\<forall>j<n. ys ! j \<le> ys ! nat b0))"
    using Suc.IH [OF _ prev] Suc.prems(1) by simp
  show ?case
  proof (cases "n = 0")
    case True
    then show ?thesis using ih step by (auto simp: deepestStep_def)
  next
    case False
    then have old: "0 \<le> b0" "b0 < int n" "p0 = Some (ys ! nat b0)" "\<forall>j<n. ys ! j \<le> ys ! nat b0"
      using ih by auto
    show ?thesis
    proof (cases "ys ! n > ys ! nat b0")
      case True
      then have "b = int n" "p = Some (ys ! n)"
        using step old(3) by (auto simp: deepestStep_def)
      moreover have "\<forall>j<Suc n. ys ! j \<le> ys ! n"
        using old(4) True by (auto simp: less_Suc_eq intro: order_trans less_imp_le)
      ultimately show ?thesis by simp
    next
      case False
      then have "b = b0" "p = p0"
        using step old(3) by (auto simp: deepestStep_def)
      moreover have "\<forall>j<Suc n. ys ! j \<le> ys ! nat b0"
        using old(4) False by (auto simp: less_Suc_eq)
      ultimately show ?thesis using old by simp
    qed
  qed
qed

lemma wholeClipRep_throws:
  assumes "frames = [] \<or> hipRange frames < 0.005"
  shows "wholeClipRep frames = Inl NoRepsDetected"
proof (cases "frames = []")
  case True
  then show ?thesis by (simp add: wholeClipRep_def)
next
  case False
  then have "mathMax (map avgHipY frames) - mathMin (map avgHipY frames) < 0.005"
    using assms by (simp add: hipRange_def mathMax_eq_Max mathMin_eq_Min)
  then show ?thesis using False by (simp add: wholeClipRep_def Let_def)
qed

lemma wholeClipRep_one_rep:
  assumes "frames \<noteq> []" and "hipRange frames \<ge> 0.005"
  shows "\<exists>b. wholeClipRep frames =
           Inr [\<lparr> startFrame = 0, endFrame = int (length frames) - 1, bottomFrame = b \<rparr>] \<and>
         0 \<le> b \<and> b < int (length frames) \<and>
         (\<forall>f \<in> set frames. avgHipY f \<le> avgHipY (frameAt frames b))"
proof -
  let ?ys = "map avgHipY frames"
  obtain b p where f: "fold (deepestStep ?ys) [0..int (length ?ys) - 1] (0, None) = (b, p)"
    by (cases "fold (deepestStep ?ys) [0..int (length ?ys) - 1] (0, None)") auto
  have "\<not> mathMax ?ys - mathMin ?ys < 0.005"
    using assms by (simp add: hipRange_def mathMax_eq_Max mathMin_eq_Min)
  then have w: "wholeClipRep frames =
      Inr [\<lparr> startFrame = 0, endFrame = int (length frames) - 1, bottomFrame = b \<rparr>]"
    using assms(1) f by (simp add: wholeClipRep_def Let_def)
  have inv: "0 \<le> b" "b < int (length ?ys)" "\<forall>j<length ?ys. ?ys ! j \<le> ?ys ! nat b"
    using deepest_inv [OF order_refl f] assms(1) by auto
  have "avgHipY f \<le> avgHipY (frameAt frames b)" if mem: "f \<in> set frames" for f
  proof -
    obtain j where j: "j < length frames" "frames ! j = f"
      using mem by (auto simp: in_set_conv_nth)
    have "nat b < length frames" using inv(1,2) by simp
    then show ?thesis using inv(3) j by (auto simp: frameAt_def)
  qed
  then show ?thesis using w inv(1,2) by auto
qed


section \<open>Properties of the analysis result\<close>

lemma detectReps_short: "length frames < 5 \<Longrightarrow> detectReps frames = []"
  by (simp add: detectReps_def)

lemma hipRange_twoFrames: "hipRange twoFrames = 1 / 5"
  by (simp add: hipRange_def twoFrames_def)

lemma hipRange_stillFrames: "hipRange stillFrames = 1 / 1000"
  by (simp add: hipRange_def stillFrames_def)

lemma repsToAnalyze_no_reps:
  "detectReps frames = [] \<Longrightarrow> repsToAnalyze frames = wholeClipRep frames"
  by (simp add: repsToAnalyze_def)

text \<open>
  Claim C1. Every \<open>MetricScore\<close> of the result of \<open>analyzeSquat\<close>, the eighteen metrics of
  every rep and the eighteen overall metrics, has an integer score between 0 and 100 and
  the rating that \<open>validScore\<close> prescribes: green exactly from 80, yellow exactly from 50
  to 79, red exactly below 50.
\<close>

theorem analyzeSquat_scores_valid:
  assumes "analyzeSquat frames et ca = Inr (res, h)"
  shows "(\<forall>rd \<in> set (reps res). \<forall>key.
            metrics rd key < length h \<and> validScore (h ! metrics rd key)) \<and>
         (\<forall>key. overall res key < length h \<and> validScore (h ! overall res key))"
proof -
  from assms obtain rta where
    hv: "heapValid h"
    and refs: "\<forall>rd \<in> set (reps res). (\<forall>k. metrics rd k < length h) \<and> metrics rd DepthConsistency = 0"
    and ov: "\<forall>k. overall res k < length h"
    by (rule analyzeSquat_result)
  have "validScore (h ! r)" if "r < length h" for r
    using hv that by (simp add: heapValid_def list_all_length)
  then show ?thesis using refs ov by simp
qed

theorem analyzeSquat_scores_valid_witness:
  "\<exists>res h. analyzeSquat twoFrames None None = Inr (res, h) \<and> length (reps res) = 1 \<and>
     (\<forall>rd \<in> set (reps res). \<forall>key.
        metrics rd key < length h \<and> validScore (h ! metrics rd key)) \<and>
     (\<forall>key. overall res key < length h \<and> validScore (h ! overall res key))"
proof -
  have d: "detectReps twoFrames = []"
    by (rule detectReps_short) (simp add: twoFrames_def)
  have "twoFrames \<noteq> []" "hipRange twoFrames \<ge> 0.005"
    by (simp_all add: hipRange_twoFrames) (simp add: twoFrames_def)
  then obtain b where "wholeClipRep twoFrames =
      Inr [\<lparr> startFrame = 0, endFrame = int (length twoFrames) - 1, bottomFrame = b \<rparr>]"
    using wholeClipRep_one_rep by blast
  then have r: "repsToAnalyze twoFrames =
      Inr [\<lparr> startFrame = 0, endFrame = int (length twoFrames) - 1, bottomFrame = b \<rparr>]"
    using d by (simp add: repsToAnalyze_no_reps)
  then obtain res h where a: "analyzeSquat twoFrames None None = Inr (res, h)"
    using analyzeSquat_returns by blast
  from a obtain rta where "repsToAnalyze twoFrames = Inr rta" "length (reps res) = length rta"
    by (rule analyzeSquat_result)
  moreover from this(1) have "length rta = 1" unfolding r by auto
  ultimately have "length (reps res) = 1" by simp
  then show ?thesis
    using a analyzeSquat_scores_valid [OF a] by blast
qed

text \<open>
  Claim C2. When \<open>detectReps\<close> finds no rep, \<open>analyzeSquat\<close> throws the no-reps error if the
  range of the average hip height is below 0.005 (or there is no frame at all), and if
  the range exceeds 0.005 it analyses exactly one rep, from frame 0 to the last frame,
  whose bottom is a frame of maximal average hip height.
\<close>

theorem analyzeSquat_no_peak:
  assumes "detectReps frames = []"
  shows "(frames = [] \<or> hipRange frames < 0.005 \<longrightarrow>
            analyzeSquat frames et ca = Inl NoRepsDetected) \<and>
         (frames \<noteq> [] \<and> hipRange frames > 0.005 \<longrightarrow>
            (\<exists>res h rd. analyzeSquat frames et ca = Inr (res, h) \<and>
               reps res = [rd] \<and> repCount res = 1 \<and>
               startFrame rd = 0 \<and> endFrame rd = int (length frames) - 1 \<and>
               0 \<le> bottomFrame rd \<and> bottomFrame rd < int (length frames) \<and>
               (\<forall>f \<in> set frames. avgHipY f \<le> avgHipY (frameAt frames (bottomFrame rd)))))"
proof (intro conjI impI)
  assume "frames = [] \<or> hipRange frames < 0.005"
  then have "repsToAnalyze frames = Inl NoRepsDetected"
    using assms by (simp add: repsToAnalyze_no_reps wholeClipRep_throws)
  then show "analyzeSquat frames et ca = Inl NoRepsDetected"
    by (rule analyzeSquat_throws)
next
  assume "frames \<noteq> [] \<and> hipRange frames > 0.005"
  then have "frames \<noteq> []" "hipRange frames \<ge> 0.005" by simp_all
  then obtain b where w: "wholeClipRep frames =
      Inr [\<lparr> startFrame = 0, endFrame = int (length frames) - 1, bottomFrame = b \<rparr>]"
    and b: "0 \<le> b" "b < int (length frames)"
      "\<forall>f \<in> set frames. avgHipY f \<le> avgHipY (frameAt frames b)"
    using wholeClipRep_one_rep by blast
  let ?rep = "\<lparr> startFrame = 0, endFrame = int (length frames) - 1, bottomFrame = b \<rparr>"
  have r: "repsToAnalyze frames = Inr [?rep]"
    using assms w by (simp add: repsToAnalyze_no_reps)
  then obtain res h where a: "analyzeSquat frames et ca = Inr (res, h)"
    using analyzeSquat_returns by blast
  from a obtain rta where rta: "repsToAnalyze frames = Inr rta"
    "repCount res = int (length rta)"
    "map (\<lambda>rd. (startFrame rd, endFrame rd, bottomFrame rd)) (reps res) =
     map (\<lambda>r. (startFrame r, endFrame r, bottomFrame r)) rta"
    by (rule analyzeSquat_result)
  have "rta = [?rep]" using rta(1) unfolding r by auto
  then have fr: "map (\<lambda>rd. (startFrame rd, endFrame rd, bottomFrame rd)) (reps res) =
      [(0, int (length frames) - 1, b)]" and rc: "repCount res = 1"
    using rta(2,3) by simp_all
  then obtain rd where rd: "reps res = [rd]" by (cases "reps res") auto
  then show "\<exists>res h rd. analyzeSquat frames et ca = Inr (res, h) \<and>
               reps res = [rd] \<and> repCount res = 1 \<and>
               startFrame rd = 0 \<and> endFrame rd = int (length frames) - 1 \<and>
               0 \<le> bottomFrame rd \<and> bottomFrame rd < int (length frames) \<and>
               (\<forall>f \<in> set frames. avgHipY f \<le> avgHipY (frameAt frames (bottomFrame rd)))"
    using a fr rc b by auto
qed

theorem analyzeSquat_no_peak_witness:
  "detectReps stillFrames = [] \<and> hipRange stillFrames < 0.005 \<and>
   analyzeSquat stillFrames None None = Inl NoRepsDetected \<and>
   detectReps twoFrames = [] \<and> twoFrames \<noteq> [] \<and> hipRange twoFrames > 0.005 \<and>
   (\<exists>res h rd. analyzeSquat twoFrames None None = Inr (res, h) \<and>
      reps res = [rd] \<and> repCount res = 1 \<and>
      startFrame rd = 0 \<and> endFrame rd = int (length twoFrames) - 1 \<and>
      0 \<le> bottomFrame rd \<and> bottomFrame rd < int (length twoFrames) \<and>
      (\<forall>f \<in> set twoFrames. avgHipY f \<le> avgHipY (frameAt twoFrames (bottomFrame rd))))"
proof -
  have d1: "detectReps stillFrames = []"
    by (rule detectReps_short) (simp add: stillFrames_def)
  have d2: "detectReps twoFrames = []"
    by (rule detectReps_short) (simp add: twoFrames_def)
  have r1: "hipRange stillFrames < 0.005" by (simp add: hipRange_stillFrames)
  have r2: "twoFrames \<noteq> []" "hipRange twoFrames > 0.005"
    by (simp_all add: hipRange_twoFrames) (simp add: twoFrames_def)
  show ?thesis
    using analyzeSquat_no_peak [OF d1, of None None] analyzeSquat_no_peak [OF d2, of None None]
      d1 d2 r1 r2 by blast
qed

section \<open>Aggregating the scores of the reps\<close>

lemma sorted_low_high: "sort_key score [lowRep, highRep] = [lowRep, highRep]"
  by (simp add: lowRep_def highRep_def)

lemma average_low_high:
  "averageMetricScores [lowRep, highRep] =
     \<lparr> score = 50, rating = yellow, summary = ''high (1/2 reps rated good)'',
       issueFrames = [3, 4, 4], confidence = high \<rparr>"
  unfolding averageMetricScores_def Let_def sorted_low_high
  by (simp add: lowRep_def highRep_def getRating_def showNat.simps)

text \<open>
  Claim C4, as stated, is false: with two reps the summary is taken from the rep with the
  higher score, not from the lower median.
\<close>

theorem averageMetricScores_lower_median_counterexample:
  "summary (averageMetricScores [lowRep, highRep]) \<noteq>
     summary (lowerMedian [lowRep, highRep]) @ goodSuffix [lowRep, highRep]"
  unfolding average_low_high lowerMedian_def sorted_low_high
  by (simp add: lowRep_def highRep_def goodSuffix_def)

lemma length_filter_sort_key:
  "length (filter P (sort_key f xs)) = length (filter P xs)"
  by (simp add: filter_sort)

lemma sorted_nth_count_less:
  assumes "sorted (map f xs)" and "k < length xs"
  shows "length (filter (\<lambda>v. f v < f (xs ! k)) xs) \<le> k"
proof -
  have "filter (\<lambda>v. f v < f (xs ! k)) (drop k xs) = []"
  proof -
    have "\<not> f v < f (xs ! k)" if mem: "v \<in> set (drop k xs)" for v
    proof -
      obtain j where j: "j < length (drop k xs)" "drop k xs ! j = v"
        using mem by (auto simp: in_set_conv_nth)
      then have "v = xs ! (k + j)" "k + j < length xs" by auto
      then have "f (xs ! k) \<le> f v"
        using assms(1) sorted_nth_mono [of "map f xs" k "k + j"] assms(2) by simp
      then show ?thesis by simp
    qed
    then show ?thesis by (simp add: filter_empty_conv)
  qed
  then have "filter (\<lambda>v. f v < f (xs ! k)) xs = filter (\<lambda>v. f v < f (xs ! k)) (take k xs)"
    using filter_append [of "\<lambda>v. f v < f (xs ! k)" "take k xs" "drop k xs"] by simp
  moreover have "length (filter (\<lambda>v. f v < f (xs ! k)) (take k xs)) \<le> length (take k xs)"
    by (rule length_filter_le)
  ultimately show ?thesis by simp
qed

lemma sorted_nth_count_le:
  fixes f :: "'a \<Rightarrow> int"
  assumes "sorted (map f xs)" and "k < length xs"
  shows "k < length (filter (\<lambda>v. f v \<le> f (xs ! k)) xs)"
proof -
  have "filter (\<lambda>v. f v \<le> f (xs ! k)) (take (Suc k) xs) = take (Suc k) xs"
  proof -
    have "f v \<le> f (xs ! k)" if mem: "v \<in> set (take (Suc k) xs)" for v
    proof -
      obtain j where j: "j < length (take (Suc k) xs)" "take (Suc k) xs ! j = v"
        using mem by (auto simp: in_set_conv_nth)
      then have "v = xs ! j" "j \<le> k" by auto
      then show ?thesis
        using assms(1) sorted_nth_mono [of "map f xs" j k] assms(2) by simp
    qed
    then show ?thesis by (simp add: filter_id_conv)
  qed
  then have "length (filter (\<lambda>v. f v \<le> f (xs ! k)) xs) =
      Suc k + length (filter (\<lambda>v. f v \<le> f (xs ! k)) (drop (Suc k) xs))"
    using filter_append [of "\<lambda>v. f v \<le> f (xs ! k)" "take (Suc k) xs" "drop (Suc k) xs"]
      assms(2) by simp
  then show ?thesis by simp
qed

text \<open>
  Claim C4, amended. For a non-empty list of per-rep scores the aggregated score is the
  rounded mean; the issue frames are the reps' issue frames concatenated in rep order;
  the summary is the summary of the rep at index \<open>n div 2\<close> of the reps in (stable)
  ascending order of score, followed by the good-reps suffix when there is more than one
  rep. That rep is one of the given reps, at most \<open>n div 2\<close> reps score strictly less
  and more than \<open>n div 2\<close> reps score at most as much: the upper median.
\<close>

theorem averageMetricScores_upper_median:
  assumes "scores \<noteq> []"
  shows "score (averageMetricScores scores) = round (meanScore scores) \<and>
         issueFrames (averageMetricScores scores) = concat (map issueFrames scores) \<and>
         summary (averageMetricScores scores) =
           summary (upperMedian scores) @ goodSuffix scores \<and>
         upperMedian scores \<in> set scores \<and>
         length (filter (\<lambda>s. score s < score (upperMedian scores)) scores)
           \<le> length scores div 2 \<and>
         length scores div 2
           < length (filter (\<lambda>s. score s \<le> score (upperMedian scores)) scores)"
proof -
  let ?xs = "sort_key score scores"
  let ?k = "length scores div 2"
  have k: "?k < length ?xs" using assms by simp
  have srt: "sorted (map score ?xs)" by simp
  have mem: "upperMedian scores \<in> set scores"
    using nth_mem [OF k] by (simp add: upperMedian_def)
  have lt: "length (filter (\<lambda>s. score s < score (upperMedian scores)) scores) \<le> ?k"
    using sorted_nth_count_less [OF srt k]
    by (simp add: upperMedian_def length_filter_sort_key)
  have le: "?k < length (filter (\<lambda>s. score s \<le> score (upperMedian scores)) scores)"
    using sorted_nth_count_le [OF srt k]
    by (simp add: upperMedian_def length_filter_sort_key)
  have "score (averageMetricScores scores) = round (meanScore scores)"
    "issueFrames (averageMetricScores scores) = concat (map issueFrames scores)"
    "summary (averageMetricScores scores) = summary (upperMedian scores) @ goodSuffix scores"
    using assms
    by (simp_all add: averageMetricScores_def Let_def meanScore_def upperMedian_def goodSuffix_def)
  then show ?thesis using mem lt le by simp
qed

theorem averageMetricScores_upper_median_witness:
  "[lowRep, highRep] \<noteq> [] \<and>
   score (averageMetricScores [lowRep, highRep]) = round (meanScore [lowRep, highRep]) \<and>
   score (averageMetricScores [lowRep, highRep]) = 50 \<and>
   issueFrames (averageMetricScores [lowRep, highRep]) = [3, 4, 4] \<and>
   summary (averageMetricScores [lowRep, highRep]) =
     summary (upperMedian [lowRep, highRep]) @ goodSuffix [lowRep, highRep] \<and>
   summary (averageMetricScores [lowRep, highRep]) = ''high (1/2 reps rated good)''"
  using averageMetricScores_upper_median [of "[lowRep, highRep]"]
  by (simp add: average_low_high)

section \<open>Exercise type detection\<close>

lemma hipsUsable_mkFrame [simp]: "hipsUsable (mkFrame t v)"
  by (simp add: hipsUsable_def mkFrame_def lm_def LEFT_HIP_def RIGHT_HIP_def)

lemma usableFrames_eq: "usableFrames frames = filter hipsUsable frames"
  unfolding usableFrames_def by (rule filter_cong) (auto simp: hipsUsable_def)

lemma valueRange_eq: "xs \<noteq> [] \<Longrightarrow> valueRange xs = rangeOf xs"
  by (simp add: valueRange_def rangeOf_def mathMax_eq_Max mathMin_eq_Min)

lemma pooled_range:
  "(if length xs > 0 then valueRange xs else 0) = (if xs = [] then 0 else rangeOf xs)"
  by (cases xs) (simp_all add: valueRange_eq)

text \<open>
  Claim C5, as stated, is false: three frames with visible hips are answered with
  \<open>unknown\<close>, although three frames have usable hip data.
\<close>

theorem detectExerciseType_unknown_counterexample:
  "detectExerciseType threeFrames = unknown \<and> \<not> length (usableFrames threeFrames) < 2"
  by (simp add: detectExerciseType_def threeFrames_def usableFrames_eq)

text \<open>
  Claim C5, amended. \<open>detectExerciseType\<close> returns \<open>unknown\<close> exactly when the sequence has
  fewer than 4 frames or fewer than 2 frames have usable hip data. Otherwise, with the
  ranges taken over the frames with usable hips (the knee angles pooled over the legs
  whose knee and ankle are visible with more than 0.3, range 0 if there is none), it
  returns squat when hipYRange > 0.10 and kneeAngleRange > 30; else deadlift when
  hipYRange > 0.08, hipXRange > 0.05 and kneeAngleRange < 30; else squat when
  hipYRange > 0.05; else other.
\<close>

theorem detectExerciseType_cases:
  "detectExerciseType frames =
     (if length frames < 4 \<or> length (usableFrames frames) < 2 then unknown
      else if hipYRange frames > 0.10 \<and> kneeAngleRange frames > 30 then squat
      else if hipYRange frames > 0.08 \<and> hipXRange frames > 0.05 \<and> kneeAngleRange frames < 30
        then deadlift
      else if hipYRange frames > 0.05 then squat
      else other) \<and>
   (detectExerciseType frames = unknown) =
     (length frames < 4 \<or> length (usableFrames frames) < 2)"
proof -
  let ?u = "filter hipsUsable frames"
  have eq: "detectExerciseType frames =
     (if length frames < 4 \<or> length (usableFrames frames) < 2 then unknown
      else if hipYRange frames > 0.10 \<and> kneeAngleRange frames > 30 then squat
      else if hipYRange frames > 0.08 \<and> hipXRange frames > 0.05 \<and> kneeAngleRange frames < 30
        then deadlift
      else if hipYRange frames > 0.05 then squat
      else other)"
  proof (cases "length frames < 4 \<or> length ?u < 2")
    case True
    then show ?thesis by (auto simp: detectExerciseType_def usableFrames_eq Let_def)
  next
    case False
    then have ne: "map avgHipY ?u \<noteq> []" "map avgHipX ?u \<noteq> []" by auto
    have y: "valueRange (map avgHipY ?u) = hipYRange frames"
      using ne(1) by (simp add: valueRange_eq hipYRange_def usableFrames_eq)
    have x: "valueRange (map avgHipX ?u) = hipXRange frames"
      using ne(2) by (simp add: valueRange_eq hipXRange_def usableFrames_eq)
    have k: "(if length (concat (map frameKneeAngles ?u)) > 0
              then valueRange (concat (map frameKneeAngles ?u)) else 0) = kneeAngleRange frames"
      unfolding kneeAngleRange_def Let_def usableFrames_eq by (rule pooled_range)
    have "detectExerciseType frames =
      (if hipYRange frames > 0.1 \<and> kneeAngleRange frames > 30 then squat
       else if hipYRange frames > 0.08 \<and> hipXRange frames > 0.05 \<and> kneeAngleRange frames < 30
         then deadlift
       else if hipYRange frames > 0.05 then squat
       else other)"
      using False unfolding detectExerciseType_def Let_def length_map y x k by simp
    then show ?thesis using False by (simp add: usableFrames_eq)
  qed
  show ?thesis
    by (rule conjI [OF eq]) (simp add: eq)
qed


lemma avgHipX_mkFrame [simp]: "avgHipX (mkFrame t v) = 0"
  by (simp add: avgHipX_def mkFrame_def lm_def LEFT_HIP_def RIGHT_HIP_def)

lemma frameKneeAngles_mkFrame [simp]: "frameKneeAngles (mkFrame t v) = [0, 0]"
  by (simp add: frameKneeAngles_def mkFrame_def lm_def angleBetween_def LEFT_HIP_def
      RIGHT_HIP_def LEFT_KNEE_def RIGHT_KNEE_def LEFT_ANKLE_def RIGHT_ANKLE_def)

theorem detectExerciseType_cases_witness:
  "detectExerciseType fourFrames = squat \<and> hipYRange fourFrames = 1 / 5 \<and>
   hipXRange fourFrames = 0 \<and> kneeAngleRange fourFrames = 0 \<and>
   detectExerciseType threeFrames = unknown"
proof -
  have u: "usableFrames fourFrames = fourFrames"
    by (simp add: usableFrames_eq fourFrames_def)
  have r: "hipYRange fourFrames = 1 / 5" "hipXRange fourFrames = 0" "kneeAngleRange fourFrames = 0"
    by (simp_all add: hipYRange_def hipXRange_def kneeAngleRange_def u rangeOf_def)
      (simp_all add: fourFrames_def)
  have l: "length fourFrames = 4" "length threeFrames = 3"
    by (simp_all add: fourFrames_def threeFrames_def)
  show ?thesis
    using detectExerciseType_cases [of fourFrames] detectExerciseType_cases [of threeFrames]
    by (simp add: r l u)
qed

section \<open>Depth consistency of fewer than two reps\<close>

text \<open>
  Claim C8. Called with fewer than two detected reps, \<open>scoreDepthConsistency\<close> returns the
  perfect score: score 100, rating green, and no issue frames.
\<close>

theorem scoreDepthConsistency_few_reps:
  assumes "length allReps < 2"
  shows "score (scoreDepthConsistency frames allReps) = 100 \<and>
         rating (scoreDepthConsistency frames allReps) = green \<and>
         issueFrames (scoreDepthConsistency frames allReps) = []"
  using assms by (simp add: scoreDepthConsistency_def)

theorem scoreDepthConsistency_few_reps_witness:
  "length [sampleRep] < 2 \<and>
   score (scoreDepthConsistency [] [sampleRep]) = 100 \<and>
   rating (scoreDepthConsistency [] [sampleRep]) = green \<and>
   issueFrames (scoreDepthConsistency [] [sampleRep]) = []"
  using scoreDepthConsistency_few_reps [of "[sampleRep]" "[]"] by simp

section \<open>Outlier rejection\<close>

lemma rejectOne_displacement:
  "rejectOne threshold l prev =
     (if displacement l prev > threshold then prev\<lparr>visibility := visibility l\<rparr> else l)"
  by (simp add: rejectOne_def displacement_def Let_def power2_eq_square)

text \<open>
  Claim C7. With a previous frame and a positive body height, \<open>rejectOutliers\<close> returns, for
  every landmark, the previous position with the visibility of the new observation when
  the displacement exceeds 15% of the body height, and the new observation unchanged
  otherwise.
\<close>

theorem rejectOutliers_spec:
  assumes "bodyHeight > 0" and "length prevs = length raw"
  shows "\<exists>out. rejectOutliers raw (Some prevs) bodyHeight = Inr out \<and>
           length out = length raw \<and>
           (\<forall>i < length raw.
              out ! i =
                (if displacement (raw ! i) (prevs ! i) > 0.15 * bodyHeight
                 then \<lparr> px = px (prevs ! i), py = py (prevs ! i), pz = pz (prevs ! i),
                        visibility = visibility (raw ! i) \<rparr>
                 else raw ! i))"
proof -
  let ?out = "map (\<lambda>i. rejectOne (bodyHeight * 0.15) (raw ! i) (prevs ! i)) [0..<length raw]"
  have "rejectOutliers raw (Some prevs) bodyHeight = Inr ?out"
    using assms by (simp add: rejectOutliers_def Let_def)
  moreover have "?out ! i =
      (if displacement (raw ! i) (prevs ! i) > 0.15 * bodyHeight
       then \<lparr> px = px (prevs ! i), py = py (prevs ! i), pz = pz (prevs ! i),
              visibility = visibility (raw ! i) \<rparr>
       else raw ! i)" if "i < length raw" for i
    using that by (simp add: rejectOne_displacement mult.commute)
  ultimately show ?thesis by simp
qed

theorem rejectOutliers_spec_witness:
  "(1::real) > 0 \<and>
   length [lmAt 0 0 0 1, lmAt 0 0 0 1] = length [lmAt 1 0 5 (1 / 2), lmAt (1 / 10) 0 5 (1 / 2)] \<and>
   rejectOutliers [lmAt 1 0 5 (1 / 2), lmAt (1 / 10) 0 5 (1 / 2)]
     (Some [lmAt 0 0 0 1, lmAt 0 0 0 1]) 1 =
     Inr [lmAt 0 0 0 (1 / 2), lmAt (1 / 10) 0 5 (1 / 2)]"
proof -
  obtain out where o:
    "rejectOutliers [lmAt 1 0 5 (1 / 2), lmAt (1 / 10) 0 5 (1 / 2)]
       (Some [lmAt 0 0 0 1, lmAt 0 0 0 1]) 1 = Inr out"
    "length out = 2"
    "\<forall>i < 2. out ! i =
       (if displacement ([lmAt 1 0 5 (1 / 2), lmAt (1 / 10) 0 5 (1 / 2)] ! i)
             ([lmAt 0 0 0 1, lmAt 0 0 0 1] ! i) > 0.15 * 1
        then \<lparr> px = px ([lmAt 0 0 0 1, lmAt 0 0 0 1] ! i),
               py = py ([lmAt 0 0 0 1, lmAt 0 0 0 1] ! i),
               pz = pz ([lmAt 0 0 0 1, lmAt 0 0 0 1] ! i),
               visibility = visibility ([lmAt 1 0 5 (1 / 2), lmAt (1 / 10) 0 5 (1 / 2)] ! i) \<rparr>
        else [lmAt 1 0 5 (1 / 2), lmAt (1 / 10) 0 5 (1 / 2)] ! i)"
    using rejectOutliers_spec [of 1 "[lmAt 0 0 0 1, lmAt 0 0 0 1]"
        "[lmAt 1 0 5 (1 / 2), lmAt (1 / 10) 0 5 (1 / 2)]"]
    by auto
  have "out ! 0 = lmAt 0 0 0 (1 / 2)"
    using o(3) by (simp add: displacement_def lmAt_def)
  moreover have "out ! 1 = lmAt (1 / 10) 0 5 (1 / 2)"
    using o(3) by (simp add: displacement_def lmAt_def real_sqrt_abs)
  ultimately have "out = [lmAt 0 0 0 (1 / 2), lmAt (1 / 10) 0 5 (1 / 2)]"
    using o(2) by (auto simp: list_eq_iff_nth_eq less_Suc_eq numeral_2_eq_2)
  then show ?thesis using o(1) by simp
qed

section \<open>Rep detection\<close>

lemma length_movingAverage [simp]: "length (movingAverage vals w) = length vals"
  by (simp add: movingAverage_def Let_def)

lemma findValley_Backward:
  "boundary \<le> i \<Longrightarrow>
   boundary \<le> findValley sm i Backward boundary \<and> findValley sm i Backward boundary \<le> i"
proof (induction sm i Backward boundary rule: findValley.induct)
  case (1 sm i boundary)
  show ?case
  proof (cases "i - 1 < boundary \<or> sm ! nat (i - 1) > sm ! nat i")
    case True
    then show ?thesis using "1.prems" by (auto simp: findValley.simps [of sm i] Let_def)
  next
    case False
    then have "findValley sm i Backward boundary = findValley sm (i - 1) Backward boundary"
      by (simp add: findValley.simps [of sm i] Let_def)
    moreover have "boundary \<le> findValley sm (i - 1) Backward boundary \<and>
        findValley sm (i - 1) Backward boundary \<le> i - 1"
      using "1.hyps" [of "i - 1"] False by simp
    ultimately show ?thesis by simp
  qed
qed

lemma findValley_Forward:
  "i \<le> boundary \<Longrightarrow>
   i \<le> findValley sm i Forward boundary \<and> findValley sm i Forward boundary \<le> boundary"
proof (induction sm i Forward boundary rule: findValley.induct)
  case (1 sm i boundary)
  show ?case
  proof (cases "i + 1 > boundary \<or> sm ! nat (i + 1) > sm ! nat i")
    case True
    then show ?thesis using "1.prems" by (auto simp: findValley.simps [of sm i] Let_def)
  next
    case False
    then have "findValley sm i Forward boundary = findValley sm (i + 1) Forward boundary"
      by (simp add: findValley.simps [of sm i] Let_def)
    moreover have "i + 1 \<le> findValley sm (i + 1) Forward boundary \<and>
        findValley sm (i + 1) Forward boundary \<le> boundary"
      using "1.hyps" [of "i + 1"] False by simp
    ultimately show ?thesis by simp
  qed
qed

lemma findBottoms_mem:
  assumes "b \<in> set (findBottoms sm)"
  shows "2 \<le> b" and "b \<le> int (length sm) - 3" and "isPeak sm b"
  using assms by (auto simp: findBottoms_def)

lemma findBottoms_increasing: "sorted_wrt (<) (findBottoms sm)"
  unfolding findBottoms_def
  by (rule sorted_wrt_filter) (simp add: strict_sorted_iff)

lemma peaks_apart:
  assumes "isPeak sm a" and "isPeak sm b" and "a < b" and "2 \<le> a"
  shows "a + 3 \<le> b"
proof (rule ccontr)
  assume "\<not> a + 3 \<le> b"
  then consider "b = a + 1" | "b = a + 2" using assms(3) by linarith
  then show False
  proof cases
    case 1
    have "sm ! nat a > sm ! nat (a + 1)" using assms(1) by (simp add: isPeak_def)
    moreover have "sm ! nat b > sm ! nat (b - 1)" using assms(2) by (simp add: isPeak_def)
    ultimately show False using 1 by simp
  next
    case 2
    have "sm ! nat a > sm ! nat (a + 2)" using assms(1) by (simp add: isPeak_def)
    moreover have "sm ! nat b > sm ! nat (b - 2)" using assms(2) by (simp add: isPeak_def)
    ultimately show False using 2 by simp
  qed
qed

lemma findBottoms_apart:
  assumes "Suc k < length (findBottoms sm)"
  shows "findBottoms sm ! k + 3 \<le> findBottoms sm ! Suc k"
proof -
  let ?bs = "findBottoms sm"
  have "?bs ! k < ?bs ! Suc k"
    using findBottoms_increasing [of sm] assms by (simp add: sorted_wrt_iff_nth_less)
  moreover have "?bs ! k \<in> set ?bs" "?bs ! Suc k \<in> set ?bs"
    using assms by simp_all
  ultimately show ?thesis
    using peaks_apart findBottoms_mem by blast
qed

lemma detectReps_eq:
  "detectReps frames =
     (if length frames < 5 then []
      else map (makeRep (smoothedHip frames) (int (length frames)) (bottomsOf frames))
             [0..int (length (bottomsOf frames)) - 1])"
  by (simp add: detectReps_def Let_def smoothedHip_def bottomsOf_def)

lemma length_detectReps:
  "length (detectReps frames) = (if length frames < 5 then 0 else length (bottomsOf frames))"
  by (simp add: detectReps_eq)

lemma detectReps_nth:
  assumes "k < length (detectReps frames)"
  shows "detectReps frames ! k =
           makeRep (smoothedHip frames) (int (length frames)) (bottomsOf frames) (int k)"
proof -
  have "\<not> length frames < 5" and k: "k < length (bottomsOf frames)"
    using assms by (auto simp: length_detectReps split: if_splits)
  then show ?thesis by (simp add: detectReps_eq)
qed

lemma makeRep_bounds:
  assumes k: "k < length (bottomsOf frames)"
  defines "r \<equiv> makeRep (smoothedHip frames) (int (length frames)) (bottomsOf frames) (int k)"
  shows "bottomFrame r = bottomsOf frames ! k"
    and "0 \<le> startFrame r" and "startFrame r \<le> bottomFrame r"
    and "bottomFrame r \<le> endFrame r" and "endFrame r \<le> int (length frames) - 1"
    and "0 < k \<Longrightarrow> startFrame r = (bottomsOf frames ! (k - 1) + bottomsOf frames ! k) div 2"
    and "Suc k < length (bottomsOf frames) \<Longrightarrow>
           endFrame r = (bottomsOf frames ! k + bottomsOf frames ! Suc k) div 2 - 1"
proof -
  let ?sm = "smoothedHip frames"
  let ?bs = "bottomsOf frames"
  let ?n = "int (length frames)"
  let ?b = "?bs ! k"
  have len: "int (length ?sm) = ?n" by (simp add: smoothedHip_def)
  have mem: "?b \<in> set ?bs" using k by simp
  have b2: "2 \<le> ?b" and bn: "?b \<le> ?n - 3"
    using findBottoms_mem(1,2) [of ?b ?sm] mem len by (simp_all add: bottomsOf_def)
  show bot: "bottomFrame r = ?b" by (simp add: r_def makeRep_def Let_def)
  have start: "startFrame r =
      (if k = 0 then findValley ?sm ?b Backward 0 else (?bs ! (k - 1) + ?b) div 2)"
  proof (cases "k = 0")
    case True
    have "0 \<le> findValley ?sm ?b Backward 0" using findValley_Backward [of 0 ?b ?sm] b2 by simp
    then show ?thesis using True by (simp add: r_def makeRep_def Let_def)
  next
    case False
    have pm: "?bs ! (k - 1) \<in> set ?bs" using k by simp
    have p2: "2 \<le> ?bs ! (k - 1)"
      using findBottoms_mem(1) [of "?bs ! (k - 1)" ?sm] pm by (simp add: bottomsOf_def)
    have "nat (int k - 1) = k - 1" by simp
    then show ?thesis
      using False p2 b2 by (simp add: r_def makeRep_def Let_def)
  qed
  have stop: "endFrame r =
      (if Suc k = length ?bs then findValley ?sm ?b Forward (?n - 1)
       else (?b + ?bs ! Suc k) div 2 - 1)"
  proof (cases "Suc k = length ?bs")
    case True
    have "findValley ?sm ?b Forward (?n - 1) \<le> ?n - 1"
      using findValley_Forward [of ?b "?n - 1" ?sm] bn by simp
    then show ?thesis
      using True [symmetric] len by (simp add: r_def makeRep_def Let_def)
  next
    case False
    then have sk: "Suc k < length ?bs" using k by simp
    then have notlast: "int k \<noteq> int (length ?bs) - 1" "int k < int (length ?bs) - 1" by simp_all
    have nm: "?bs ! Suc k \<in> set ?bs" using sk by simp
    have nn: "?bs ! Suc k \<le> ?n - 3"
      using findBottoms_mem(2) [of "?bs ! Suc k" ?sm] nm len by (simp add: bottomsOf_def)
    have le: "(?b + ?bs ! Suc k) div 2 - 1 \<le> ?n - 1" using bn nn by linarith
    have "nat (int k + 1) = Suc k" by simp
    then show ?thesis
      using False notlast le by (simp add: r_def makeRep_def Let_def)
  qed
  show "0 \<le> startFrame r" and "startFrame r \<le> bottomFrame r"
  proof -
    show "0 \<le> startFrame r"
    proof (cases "k = 0")
      case True
      then show ?thesis using start findValley_Backward [of 0 ?b ?sm] b2 by simp
    next
      case False
      have pm: "?bs ! (k - 1) \<in> set ?bs" using k by simp
      have "2 \<le> ?bs ! (k - 1)"
        using findBottoms_mem(1) [of "?bs ! (k - 1)" ?sm] pm by (simp add: bottomsOf_def)
      then show ?thesis using start False b2 by simp
    qed
    show "startFrame r \<le> bottomFrame r"
    proof (cases "k = 0")
      case True
      then show ?thesis using start bot findValley_Backward [of 0 ?b ?sm] b2 by simp
    next
      case False
      then have "Suc (k - 1) < length ?bs" using k by simp
      then have "?bs ! (k - 1) + 3 \<le> ?bs ! Suc (k - 1)"
        unfolding bottomsOf_def by (rule findBottoms_apart)
      then have "?bs ! (k - 1) + 3 \<le> ?b" using False by simp
      then show ?thesis using start bot False by simp
    qed
  qed
  show "bottomFrame r \<le> endFrame r" and "endFrame r \<le> int (length frames) - 1"
  proof -
    show "bottomFrame r \<le> endFrame r"
    proof (cases "Suc k = length ?bs")
      case True
      then show ?thesis using stop bot findValley_Forward [of ?b "?n - 1" ?sm] bn by simp
    next
      case False
      then have "Suc k < length ?bs" using k by simp
      then have "?b + 3 \<le> ?bs ! Suc k"
        unfolding bottomsOf_def by (rule findBottoms_apart)
      then show ?thesis using stop bot False by simp
    qed
    show "endFrame r \<le> int (length frames) - 1"
    proof (cases "Suc k = length ?bs")
      case True
      then show ?thesis using stop findValley_Forward [of ?b "?n - 1" ?sm] bn by simp
    next
      case False
      then have sk: "Suc k < length ?bs" using k by simp
      have nm: "?bs ! Suc k \<in> set ?bs" using sk by simp
      have "?bs ! Suc k \<le> ?n - 3"
        using findBottoms_mem(2) [of "?bs ! Suc k" ?sm] nm len by (simp add: bottomsOf_def)
      then show ?thesis using stop False bn by simp
    qed
  qed
  show "startFrame r = (?bs ! (k - 1) + ?b) div 2" if "0 < k"
    using start that by simp
  show "endFrame r = (?b + ?bs ! Suc k) div 2 - 1" if "Suc k < length ?bs"
    using stop that by simp
qed


subsection \<open>A clip with two reps\<close>

lemma avgHipY_hipFrames_aux:
  "map avgHipY (map (\<lambda>(i, v). mkFrame (real i) v) (enumerate n ys)) = ys"
  by (induction ys arbitrary: n) simp_all

lemma avgHipY_hipFrames [simp]: "map avgHipY (hipFrames ys) = ys"
  unfolding hipFrames_def by (rule avgHipY_hipFrames_aux)

lemma length_hipFrames [simp]: "length (hipFrames ys) = length ys"
  by (simp add: hipFrames_def)

lemma smoothedHip_hipFrames: "smoothedHip (hipFrames ys) = movingAverage ys 5"
  by (simp add: smoothedHip_def)

lemma findBottoms_staged:
  "findBottoms sm =
     filter (\<lambda>i. prominence sm i \<ge> minProminence)
       (filter (isPeak sm) [2..int (length sm) - 3])"
  by (simp add: findBottoms_def conj_commute)

lemma smoothed_twoReps:
  "smoothedHip twoReps = [19 / 30, 13 / 20, 17 / 25, 33 / 50, 31 / 50, 17 / 25, 27 / 40, 19 / 30]"
  by (simp add: twoReps_def smoothedHip_hipFrames movingAverage_def Let_def upto_rec1)

lemma peaks_twoReps:
  "filter (isPeak [19 / 30, 13 / 20, 17 / 25, 33 / 50, 31 / 50, 17 / 25, 27 / 40, 19 / 30]) [2..int (length [19 / 30, 13 / 20, 17 / 25, 33 / 50, 31 / 50, 17 / 25, 27 / 40, 19 / 30]) - 3] = [2, 5]"
  by (simp add: upto_rec1) (simp add: isPeak_def)

lemma bottoms_twoReps: "bottomsOf twoReps = [2, 5]"
  unfolding bottomsOf_def smoothed_twoReps findBottoms_staged peaks_twoReps
  by (simp add: prominence_def leftMin_def rightMin_def minProminence_def upto_rec1)

lemma valleys_twoReps:
  "findValley [19 / 30, 13 / 20, 17 / 25, 33 / 50, 31 / 50, 17 / 25, 27 / 40, 19 / 30]
     2 Backward 0 = 0"
  "findValley [19 / 30, 13 / 20, 17 / 25, 33 / 50, 31 / 50, 17 / 25, 27 / 40, 19 / 30]
     5 Forward 7 = 7"
  by (simp_all add: findValley.simps Let_def)

lemma makeRep_twoReps:
  "makeRep [19 / 30, 13 / 20, 17 / 25, 33 / 50, 31 / 50, 17 / 25, 27 / 40, 19 / 30] 8 [2, 5] 0 =
     \<lparr> startFrame = 0, endFrame = 2, bottomFrame = 2 \<rparr>"
  "makeRep [19 / 30, 13 / 20, 17 / 25, 33 / 50, 31 / 50, 17 / 25, 27 / 40, 19 / 30] 8 [2, 5] 1 =
     \<lparr> startFrame = 3, endFrame = 7, bottomFrame = 5 \<rparr>"
  by (simp_all add: makeRep_def Let_def valleys_twoReps)

lemma detectReps_twoReps:
  "detectReps twoReps =
     [\<lparr> startFrame = 0, endFrame = 2, bottomFrame = 2 \<rparr>,
      \<lparr> startFrame = 3, endFrame = 7, bottomFrame = 5 \<rparr>]"
proof -
  have l: "length twoReps = 8" by (simp add: twoReps_def)
  show ?thesis
    unfolding detectReps_eq bottoms_twoReps smoothed_twoReps l
    by (simp add: upto_rec1 makeRep_twoReps)
qed


text \<open>
  Claim C3. The \<open>depthConsistency\<close> field of every rep and the overall \<open>depthConsistency\<close>
  field reference one and the same object of the store, so the \<open>MetricScore\<close> read
  through any of them is the same.
\<close>

theorem depthConsistency_shared:
  assumes "analyzeSquat frames et ca = Inr (res, h)"
  shows "\<forall>rd \<in> set (reps res).
           metrics rd DepthConsistency = overall res DepthConsistency \<and>
           h ! metrics rd DepthConsistency = h ! overall res DepthConsistency"
proof -
  from assms obtain rta where
    "\<forall>rd \<in> set (reps res). (\<forall>k. metrics rd k < length h) \<and> metrics rd DepthConsistency = 0"
    and "overall res DepthConsistency = 0"
    by (rule analyzeSquat_result)
  then show ?thesis by simp
qed

theorem depthConsistency_shared_witness:
  "\<exists>res h rd1 rd2.
     analyzeSquat twoReps None (Some left_side) = Inr (res, h) \<and>
     reps res = [rd1, rd2] \<and> bottomFrame rd1 = 2 \<and> bottomFrame rd2 = 5 \<and>
     metrics rd1 DepthConsistency = metrics rd2 DepthConsistency \<and>
     metrics rd1 DepthConsistency = overall res DepthConsistency \<and>
     metrics rd2 DepthConsistency = overall res DepthConsistency \<and>
     h ! metrics rd1 DepthConsistency = h ! metrics rd2 DepthConsistency \<and>
     h ! metrics rd1 DepthConsistency = h ! overall res DepthConsistency \<and>
     h ! metrics rd2 DepthConsistency = h ! overall res DepthConsistency"
proof -
  let ?r1 = "\<lparr> startFrame = 0, endFrame = 2, bottomFrame = 2 \<rparr>"
  let ?r2 = "\<lparr> startFrame = 3, endFrame = 7, bottomFrame = 5 \<rparr>"
  have r: "repsToAnalyze twoReps = Inr [?r1, ?r2]"
    by (simp add: repsToAnalyze_def detectReps_twoReps)
  then obtain res h where a: "analyzeSquat twoReps None (Some left_side) = Inr (res, h)"
    using analyzeSquat_returns by blast
  from a obtain rta where rta: "repsToAnalyze twoReps = Inr rta"
    "map (\<lambda>rd. (startFrame rd, endFrame rd, bottomFrame rd)) (reps res) =
     map (\<lambda>r. (startFrame r, endFrame r, bottomFrame r)) rta"
    by (rule analyzeSquat_result)
  have "rta = [?r1, ?r2]" using rta(1) unfolding r by simp
  then have fr: "map (\<lambda>rd. (startFrame rd, endFrame rd, bottomFrame rd)) (reps res) =
      [(0, 2, 2), (3, 7, 5)]"
    using rta(2) by simp
  then obtain rd1 rd2 where rd: "reps res = [rd1, rd2]"
    by (cases "reps res") auto
  have b: "bottomFrame rd1 = 2" "bottomFrame rd2 = 5"
    using fr unfolding rd by simp_all
  show ?thesis
    using depthConsistency_shared [OF a] a rd b by simp
qed


text \<open>
  Claim C10. The reps returned by \<open>detectReps\<close> are ordered and do not overlap: every rep
  satisfies \<open>0 \<le> startFrame \<le> bottomFrame \<le> endFrame \<le> length frames - 1\<close>, consecutive
  bottoms are at least three frames apart, and each rep starts on the frame after the end
  of the rep before it.
\<close>

theorem detectReps_ordered:
  "\<forall>k < length (detectReps frames).
     0 \<le> startFrame (detectReps frames ! k) \<and>
     startFrame (detectReps frames ! k) \<le> bottomFrame (detectReps frames ! k) \<and>
     bottomFrame (detectReps frames ! k) \<le> endFrame (detectReps frames ! k) \<and>
     endFrame (detectReps frames ! k) \<le> int (length frames) - 1 \<and>
     (Suc k < length (detectReps frames) \<longrightarrow>
        bottomFrame (detectReps frames ! k) + 3 \<le> bottomFrame (detectReps frames ! Suc k) \<and>
        startFrame (detectReps frames ! Suc k) = endFrame (detectReps frames ! k) + 1)"
proof (intro allI impI)
  fix k
  assume k: "k < length (detectReps frames)"
  let ?bs = "bottomsOf frames"
  have kb: "k < length ?bs" and len: "length (detectReps frames) = length ?bs"
    using k by (auto simp: length_detectReps split: if_splits)
  note r = detectReps_nth [OF k]
  note b = makeRep_bounds [OF kb]
  have "bottomFrame (detectReps frames ! k) + 3 \<le> bottomFrame (detectReps frames ! Suc k) \<and>
        startFrame (detectReps frames ! Suc k) = endFrame (detectReps frames ! k) + 1"
    if sk: "Suc k < length (detectReps frames)"
  proof -
    have skb: "Suc k < length ?bs" using sk len by simp
    note r' = detectReps_nth [OF sk]
    note b' = makeRep_bounds [OF skb]
    have "?bs ! k + 3 \<le> ?bs ! Suc k"
      using skb unfolding bottomsOf_def by (rule findBottoms_apart)
    moreover have "startFrame (detectReps frames ! Suc k) = (?bs ! k + ?bs ! Suc k) div 2"
      using b'(6) r' by simp
    moreover have "endFrame (detectReps frames ! k) = (?bs ! k + ?bs ! Suc k) div 2 - 1"
      using b(7) [OF skb] r by simp
    ultimately show ?thesis using b(1) b'(1) r r' by simp
  qed
  then show "0 \<le> startFrame (detectReps frames ! k) \<and>
     startFrame (detectReps frames ! k) \<le> bottomFrame (detectReps frames ! k) \<and>
     bottomFrame (detectReps frames ! k) \<le> endFrame (detectReps frames ! k) \<and>
     endFrame (detectReps frames ! k) \<le> int (length frames) - 1 \<and>
     (Suc k < length (detectReps frames) \<longrightarrow>
        bottomFrame (detectReps frames ! k) + 3 \<le> bottomFrame (detectReps frames ! Suc k) \<and>
        startFrame (detectReps frames ! Suc k) = endFrame (detectReps frames ! k) + 1)"
    using b(2-5) r by simp
qed

theorem detectReps_ordered_witness:
  "length (detectReps twoReps) = 2 \<and>
   0 \<le> startFrame (detectReps twoReps ! 0) \<and>
   startFrame (detectReps twoReps ! 0) \<le> bottomFrame (detectReps twoReps ! 0) \<and>
   bottomFrame (detectReps twoReps ! 0) \<le> endFrame (detectReps twoReps ! 0) \<and>
   endFrame (detectReps twoReps ! 0) \<le> int (length twoReps) - 1 \<and>
   bottomFrame (detectReps twoReps ! 0) + 3 \<le> bottomFrame (detectReps twoReps ! 1) \<and>
   startFrame (detectReps twoReps ! 1) = endFrame (detectReps twoReps ! 0) + 1"
proof -
  have l: "length (detectReps twoReps) = 2" by (simp add: detectReps_twoReps)
  show ?thesis
    using detectReps_ordered [of twoReps, THEN spec, of 0] l by simp
qed

section \<open>Camera angle detection\<close>

subsection \<open>Counting the votes\<close>

lemma map_of_addVote:
  "map_of (addVote v m) a =
     (if a = v then Some (case map_of m v of None \<Rightarrow> 1 | Some c \<Rightarrow> c + 1) else map_of m a)"
  by (induction m) auto

lemma keys_addVote: "fst ` set (addVote v m) = insert v (fst ` set m)"
proof (induction m)
  case Nil
  then show ?case by simp
next
  case (Cons e m)
  obtain k c where e: "e = (k, c)" by (cases e)
  show ?case
  proof (cases "k = v")
    case True
    then show ?thesis using e by simp
  next
    case False
    then have "fst ` set (addVote v (e # m)) = insert k (fst ` set (addVote v m))"
      using e by simp
    then show ?thesis using Cons.IH e by auto
  qed
qed

lemma distinct_addVote: "distinct (map fst m) \<Longrightarrow> distinct (map fst (addVote v m))"
proof (induction m)
  case Nil
  then show ?case by simp
next
  case (Cons e m)
  obtain k c where e: "e = (k, c)" by (cases e)
  show ?case
  proof (cases "k = v")
    case True
    then show ?thesis using Cons.prems e by simp
  next
    case False
    have "k \<notin> fst ` set (addVote v m)"
      using Cons.prems e False unfolding keys_addVote by simp
    then show ?thesis using Cons e False by simp
  qed
qed

lemma fold_addVote:
  assumes "distinct (map fst m)"
  shows "distinct (map fst (fold addVote vs m)) \<and>
         (\<forall>a. map_of (fold addVote vs m) a =
            (case map_of m a of
               None \<Rightarrow> if count_list vs a = 0 then None else Some (count_list vs a)
             | Some c \<Rightarrow> Some (c + count_list vs a)))"
  using assms
proof (induction vs arbitrary: m)
  case Nil
  then show ?case by (auto split: option.splits)
next
  case (Cons v vs)
  have d: "distinct (map fst (addVote v m))" using Cons.prems by (rule distinct_addVote)
  show ?case
    using Cons.IH [OF d] by (auto simp: map_of_addVote split: option.splits)
qed

lemma voteCounts_mem:
  "(a, c) \<in> set (fold addVote vs []) \<longleftrightarrow> c = count_list vs a \<and> 0 < c"
proof -
  have d: "distinct (map fst (fold addVote vs []))"
    and m: "map_of (fold addVote vs []) a =
      (if count_list vs a = 0 then None else Some (count_list vs a))"
    using fold_addVote [of "[]" vs] by simp_all
  have "(a, c) \<in> set (fold addVote vs []) \<longleftrightarrow> map_of (fold addVote vs []) a = Some c"
    using d by simp
  then show ?thesis using m by auto
qed

lemma fold_bestStep:
  assumes "fold bestStep m (a0, c0) = (ba, bc)"
  shows "c0 \<le> bc \<and> (\<forall>(a, c) \<in> set m. c \<le> bc) \<and> ((ba, bc) = (a0, c0) \<or> (ba, bc) \<in> set m)"
  using assms
proof (induction m arbitrary: a0 c0)
  case Nil
  then show ?case by simp
next
  case (Cons e m)
  obtain a c where e: "e = (a, c)" by (cases e)
  show ?case
  proof (cases "c > c0")
    case True
    then have "bestStep e (a0, c0) = (a, c)" by (simp add: bestStep_def e)
    then have "fold bestStep m (a, c) = (ba, bc)"
      using Cons.prems by simp
    from Cons.IH [OF this] show ?thesis using True e by auto
  next
    case False
    then have "bestStep e (a0, c0) = (a0, c0)" by (simp add: bestStep_def e)
    then have "fold bestStep m (a0, c0) = (ba, bc)"
      using Cons.prems by simp
    from Cons.IH [OF this] show ?thesis using False e by auto
  qed
qed

lemma count_list_two:
  "a \<noteq> b \<Longrightarrow> count_list vs a + count_list vs b \<le> length vs"
  by (induction vs) auto

text \<open>The vote: the label holding at least 60% wins, and without such a label nobody does.\<close>

lemma majority_vote:
  assumes "votes \<noteq> []"
    and "fold bestStep (fold addVote votes []) (uncertain, 0) = (ba, bc)"
  shows "holdsMajority votes a \<Longrightarrow> ba = a \<and> real bc / real (length votes) \<ge> 0.6"
    and "\<forall>b. \<not> holdsMajority votes b \<Longrightarrow> \<not> real bc / real (length votes) \<ge> 0.6"
proof -
  let ?vc = "fold addVote votes []"
  let ?n = "length votes"
  have n: "0 < ?n" using assms(1) by simp
  have best: "\<forall>(x, c) \<in> set ?vc. c \<le> bc" "(ba, bc) = (uncertain, 0) \<or> (ba, bc) \<in> set ?vc"
    using fold_bestStep [OF assms(2)] by auto
  have ratio: "real bc / real ?n \<ge> 0.6 \<longleftrightarrow> 3 * ?n \<le> 5 * bc"
  proof -
    have "real bc / real ?n \<ge> 0.6 \<longleftrightarrow> 0.6 * real ?n \<le> real bc"
      using n by (simp add: pos_le_divide_eq)
    also have "\<dots> \<longleftrightarrow> real (3 * ?n) \<le> real (5 * bc)" by (auto simp: mult.commute)
    also have "\<dots> \<longleftrightarrow> 3 * ?n \<le> 5 * bc" by (simp only: of_nat_le_iff)
    finally show ?thesis .
  qed
  show "ba = a \<and> real bc / real ?n \<ge> 0.6" if maj: "holdsMajority votes a"
  proof -
    have ca: "3 * ?n \<le> 5 * count_list votes a" using maj by (simp add: holdsMajority_def)
    then have pos: "0 < count_list votes a" using n by linarith
    then have "(a, count_list votes a) \<in> set ?vc" by (simp add: voteCounts_mem)
    then have ge: "count_list votes a \<le> bc" using best(1) by auto
    then have "(ba, bc) \<in> set ?vc" using best(2) pos by auto
    then have bc: "bc = count_list votes ba" by (simp add: voteCounts_mem)
    have "ba = a"
    proof (rule ccontr)
      assume "ba \<noteq> a"
      then have "count_list votes ba + count_list votes a \<le> ?n" by (rule count_list_two)
      then show False using ca ge bc n by linarith
    qed
    then show ?thesis using ratio ca bc by simp
  qed
  show "\<not> real bc / real ?n \<ge> 0.6" if none: "\<forall>b. \<not> holdsMajority votes b"
  proof -
    have "bc = 0 \<or> bc = count_list votes ba"
      using best(2) by (auto simp: voteCounts_mem)
    moreover have "\<not> 3 * ?n \<le> 5 * count_list votes ba"
      using none by (simp add: holdsMajority_def)
    ultimately have "\<not> 3 * ?n \<le> 5 * bc" using n by auto
    then show ?thesis using ratio by simp
  qed
qed

subsection \<open>The stable window\<close>

lemma shouldersVisible_iff: "shouldersVisible f \<longleftrightarrow> bothShouldersVisible f"
  by (auto simp: shouldersVisible_def bothShouldersVisible_def)

lemma classifyFrame_eq: "classifyFrame f = frameLabel f"
  by (simp add: classifyFrame_def frameLabel_def shoulderSpread_def leftArmVisibility_def
      rightArmVisibility_def faceVisibility_def Let_def)

lemma map_nat_upto:
  "map (\<lambda>j. f (nat j)) [int a..int a + int n - 1] = map f [a..<a + n]"
proof (induction n)
  case 0
  then show ?case by simp
next
  case (Suc n)
  have "[int a..int a + int (Suc n) - 1] = [int a..int a + int n - 1] @ [int a + int n]"
    using upto_rec2 [of "int a" "int a + int n"] by simp
  then show ?case using Suc by (simp add: nat_add_distrib)
qed

lemma take_drop_nth:
  assumes "a + n \<le> length xs"
  shows "take n (drop a xs) = map ((!) xs) [a..<a + n]"
  using assms by (simp add: list_eq_iff_nth_eq)

lemma window_frames:
  assumes "i + n \<le> length frames"
  shows "map (frameAt frames) [int i..int i + int n - 1] = take n (drop i frames)"
proof -
  have "map (frameAt frames) [int i..int i + int n - 1] =
      map (\<lambda>j. frames ! nat j) [int i..int i + int n - 1]"
    by (simp add: frameAt_def [abs_def])
  also have "\<dots> = map ((!) frames) [i..<i + n]" by (rule map_nat_upto)
  also have "\<dots> = take n (drop i frames)" using assms by (simp add: take_drop_nth)
  finally show ?thesis .
qed

lemma stableAt_iff:
  assumes "i + 5 \<le> length frames"
  shows "stableAt frames (int i) \<longleftrightarrow> stableRun frames i"
proof -
  have "stableAt frames (int i) \<longleftrightarrow>
      list_all shouldersVisible (map (frameAt frames) [int i..int i + int 5 - 1])"
    by (simp add: stableAt_def list.pred_map comp_def add.commute)
  also have "\<dots> \<longleftrightarrow> list_all shouldersVisible (take 5 (drop i frames))"
    using window_frames [OF assms] by simp
  also have "\<dots> \<longleftrightarrow> stableRun frames i"
    using assms by (simp add: stableRun_def shouldersVisible_iff [abs_def])
  finally show ?thesis .
qed

lemma starts_nth:
  assumes "k + 5 \<le> length frames"
  shows "[0..int (length frames) - 5] ! k = int k" and "k < length [0..int (length frames) - 5]"
  using assms by simp_all

lemma findStableStart_none:
  assumes "noStableRun frames"
  shows "findStableStart frames = -1"
proof -
  have "\<not> stableAt frames j" if mem: "j \<in> set [0..int (length frames) - 5]" for j
  proof -
    have j: "0 \<le> j" "nat j + 5 \<le> length frames" using mem by auto
    then have "\<not> stableRun frames (nat j)"
      using assms by (simp add: noStableRun_def list_all_iff)
    then show ?thesis using stableAt_iff [OF j(2)] j(1) by simp
  qed
  then have "find (stableAt frames) [0..int (length frames) - 5] = None"
    by (simp add: find_None_iff)
  then show ?thesis by (simp add: findStableStart_def)
qed

lemma findStableStart_first:
  assumes "firstStableRun frames i"
  shows "findStableStart frames = int i"
proof -
  have run: "stableRun frames i" and first: "\<forall>j<i. \<not> stableRun frames j"
    using assms by (auto simp: firstStableRun_def list_all_iff)
  have i: "i + 5 \<le> length frames" using run by (simp add: stableRun_def)
  let ?xs = "[0..int (length frames) - 5]"
  have "stableAt frames (?xs ! i)"
    using run stableAt_iff [OF i] starts_nth(1) [OF i] by simp
  moreover have "\<not> stableAt frames (?xs ! j)" if j: "j < i" for j
  proof -
    have j5: "j + 5 \<le> length frames" using j i by simp
    show ?thesis using first j stableAt_iff [OF j5] starts_nth(1) [OF j5] by simp
  qed
  ultimately have "find (stableAt frames) ?xs = Some (?xs ! i)"
    using starts_nth(2) [OF i] unfolding find_Some_iff by blast
  then show ?thesis using starts_nth(1) [OF i] by (simp add: findStableStart_def)
qed

lemma sampleVotes_eq:
  assumes "i + 5 \<le> length frames"
  shows "sampleVotes frames (int i) = windowVotes frames i"
proof -
  let ?n = "int (length frames)"
  have "nat (min ?n (int i + 15) - int i) = min (length frames - i) 15"
    using assms by (simp add: min_def) linarith
  then have "slice frames (int i) (min ?n (int i + 15)) = take 15 (drop i frames)"
    using assms by (simp add: slice_def Let_def min_def)
  then show ?thesis
    by (simp add: sampleVotes_def windowVotes_def Let_def classifyFrame_eq [abs_def]
        shouldersVisible_iff [abs_def])
qed

lemma windowVotes_nonempty:
  assumes "stableRun frames i"
  shows "windowVotes frames i \<noteq> []"
proof -
  have i: "i < length frames" and "list_all bothShouldersVisible (take 5 (drop i frames))"
    using assms by (simp_all add: stableRun_def)
  then have v: "bothShouldersVisible (frames ! i)"
    by (auto simp: list_all_length dest: spec [of _ 0])
  have "frames ! i \<in> set (take 15 (drop i frames))"
    using i by (auto simp: in_set_conv_nth intro!: exI [of _ 0])
  then show ?thesis using v by (auto simp: windowVotes_def filter_empty_conv)
qed

text \<open>
  Claim C6. Without a run of five consecutive frames with both shoulders visible the
  answer is \<open>uncertain\<close>. Otherwise the frames with visible shoulders among up to fifteen
  frames from the first such run are labelled by shoulder spread, arm visibility and face
  visibility (\<open>frameLabel\<close>), and the answer is the label that holds at least 60% of these
  votes if there is one, and \<open>uncertain\<close> if there is none.
\<close>

theorem detectCameraAngle_spec:
  "(noStableRun frames \<longrightarrow> detectCameraAngle frames = uncertain) \<and>
   (\<forall>i. firstStableRun frames i \<longrightarrow>
      (\<forall>a. holdsMajority (windowVotes frames i) a \<longrightarrow> detectCameraAngle frames = a) \<and>
      ((\<forall>a. \<not> holdsMajority (windowVotes frames i) a) \<longrightarrow>
         detectCameraAngle frames = uncertain)) \<and>
   (\<forall>f. classifyFrame f = frameLabel f)"
proof (intro conjI allI impI)
  assume "noStableRun frames"
  then have "findStableStart frames = -1" by (rule findStableStart_none)
  then show "detectCameraAngle frames = uncertain"
    by (simp add: detectCameraAngle_def Let_def)
next
  fix i a
  assume first: "firstStableRun frames i" and maj: "holdsMajority (windowVotes frames i) a"
  have run: "stableRun frames i" using first by (simp add: firstStableRun_def)
  then have i: "i + 5 \<le> length frames" by (simp add: stableRun_def)
  have s: "findStableStart frames = int i" using first by (rule findStableStart_first)
  have v: "sampleVotes frames (int i) = windowVotes frames i" using i by (rule sampleVotes_eq)
  have ne: "windowVotes frames i \<noteq> []" using run by (rule windowVotes_nonempty)
  obtain ba bc where
    b: "fold bestStep (fold addVote (windowVotes frames i) []) (uncertain, 0) = (ba, bc)"
    by (cases "fold bestStep (fold addVote (windowVotes frames i) []) (uncertain, 0)") auto
  have "ba = a \<and> real bc / real (length (windowVotes frames i)) \<ge> 0.6"
    using majority_vote(1) [OF ne b maj] .
  then show "detectCameraAngle frames = a"
    using i s v ne b by (simp add: detectCameraAngle_def Let_def)
next
  fix i
  assume first: "firstStableRun frames i"
    and none: "\<forall>a. \<not> holdsMajority (windowVotes frames i) a"
  have run: "stableRun frames i" using first by (simp add: firstStableRun_def)
  then have i: "i + 5 \<le> length frames" by (simp add: stableRun_def)
  have s: "findStableStart frames = int i" using first by (rule findStableStart_first)
  have v: "sampleVotes frames (int i) = windowVotes frames i" using i by (rule sampleVotes_eq)
  have ne: "windowVotes frames i \<noteq> []" using run by (rule windowVotes_nonempty)
  obtain ba bc where
    b: "fold bestStep (fold addVote (windowVotes frames i) []) (uncertain, 0) = (ba, bc)"
    by (cases "fold bestStep (fold addVote (windowVotes frames i) []) (uncertain, 0)") auto
  have "\<not> real bc / real (length (windowVotes frames i)) \<ge> 0.6"
    using majority_vote(2) [OF ne b none] .
  then show "detectCameraAngle frames = uncertain"
    using i s v ne b by (simp add: detectCameraAngle_def Let_def)
next
  fix f
  show "classifyFrame f = frameLabel f" by (rule classifyFrame_eq)
qed

lemma bothShouldersVisible_mkFrame [simp]: "bothShouldersVisible (mkFrame t v)"
  by (simp add: bothShouldersVisible_def mkFrame_def lm_def LEFT_SHOULDER_def RIGHT_SHOULDER_def)

lemma frameLabel_mkFrame [simp]: "frameLabel (mkFrame t v) = left_side"
  by (simp add: frameLabel_def shoulderSpread_def leftArmVisibility_def rightArmVisibility_def
      mkFrame_def lm_def LEFT_SHOULDER_def RIGHT_SHOULDER_def LEFT_ELBOW_def RIGHT_ELBOW_def
      LEFT_WRIST_def RIGHT_WRIST_def)

lemma sideClip_frames:
  "sideClip = [mkFrame 0 (1 / 2), mkFrame 1 (1 / 2), mkFrame 2 (1 / 2), mkFrame 3 (1 / 2),
     mkFrame 4 (1 / 2)]"
  by (simp add: sideClip_def hipFrames_def)

theorem detectCameraAngle_spec_witness:
  "firstStableRun sideClip 0 \<and> holdsMajority (windowVotes sideClip 0) left_side \<and>
   detectCameraAngle sideClip = left_side \<and> noStableRun twoFrames \<and>
   detectCameraAngle twoFrames = uncertain"
proof -
  have f: "firstStableRun sideClip 0"
    by (simp add: firstStableRun_def stableRun_def sideClip_frames)
  have m: "holdsMajority (windowVotes sideClip 0) left_side"
    by (simp add: holdsMajority_def windowVotes_def sideClip_frames)
  have n: "noStableRun twoFrames"
    by (simp add: noStableRun_def stableRun_def twoFrames_def)
  show ?thesis
    using detectCameraAngle_spec [of sideClip] detectCameraAngle_spec [of twoFrames] f m n
    by blast
qed

section \<open>Trimming and re-segmentation\<close>

subsection \<open>Smoothing and peak detection on a slice\<close>

lemma upto_shift: "map (\<lambda>k. k + a) [l..u] = [l + a..u + a]"
  by (simp add: list_eq_iff_nth_eq)

lemma agreeD: "agree sm' sm a lo hi \<Longrightarrow> lo \<le> j \<Longrightarrow> j \<le> hi \<Longrightarrow> sm' ! nat j = sm ! nat (j + a)"
  by (simp add: agree_def list_all_iff)

lemma agreeI: "(\<And>j. lo \<le> j \<Longrightarrow> j \<le> hi \<Longrightarrow> sm' ! nat j = sm ! nat (j + a)) \<Longrightarrow> agree sm' sm a lo hi"
  by (simp add: agree_def list_all_iff)

lemma agree_mono: "agree sm' sm a lo hi \<Longrightarrow> lo \<le> lo' \<Longrightarrow> hi' \<le> hi \<Longrightarrow> agree sm' sm a lo' hi'"
  by (simp add: agree_def list_all_iff)

lemma movingAverage_nth:
  assumes "j < length vals"
  shows "movingAverage vals 5 ! j =
     (\<Sum>k\<leftarrow>[max 0 (int j - 2)..min (int (length vals) - 1) (int j + 2)]. vals ! nat k) /
     real_of_int (min (int (length vals) - 1) (int j + 2) - max 0 (int j - 2) + 1)"
  using assms by (simp add: movingAverage_def Let_def)

lemma sum_shift:
  assumes "\<And>k. l \<le> k \<Longrightarrow> k \<le> u \<Longrightarrow> f k = g (k + a)"
  shows "(\<Sum>k\<leftarrow>[l..u]. f k) = (\<Sum>k\<leftarrow>[l + a..u + a]. g k)"
proof -
  have "map f [l..u] = map (\<lambda>k. g (k + a)) [l..u]"
    using assms by (simp add: map_eq_conv)
  also have "\<dots> = map g (map (\<lambda>k. k + a) [l..u])" by (simp add: comp_def)
  also have "\<dots> = map g [l + a..u + a]" by (simp only: upto_shift)
  finally show ?thesis by simp
qed

lemma smooth_shift:
  fixes hs :: "real list"
  assumes "a + m \<le> length hs" and "j < m"
    and "a = 0 \<or> 2 \<le> j" and "a + m = length hs \<or> j + 3 \<le> m"
  shows "movingAverage (take m (drop a hs)) 5 ! j = movingAverage hs 5 ! (j + a)"
proof -
  let ?hs' = "take m (drop a hs)"
  have len': "length ?hs' = m" using assms(1) by simp
  let ?s' = "max 0 (int j - 2)" and ?t' = "min (int m - 1) (int j + 2)"
  let ?s = "max 0 (int (j + a) - 2)" and ?t = "min (int (length hs) - 1) (int (j + a) + 2)"
  have s: "?s = ?s' + int a" using assms(3) by auto
  have t: "?t = ?t' + int a" using assms(1,2,4) by auto
  have vals: "?hs' ! nat k = hs ! nat (k + int a)" if "?s' \<le> k" "k \<le> ?t'" for k
  proof -
    have "0 \<le> k" "nat k < m" using that assms(2) by auto
    then show ?thesis using assms(1) by (simp add: nat_add_distrib add.commute)
  qed
  have "(\<Sum>k\<leftarrow>[?s'..?t']. ?hs' ! nat k) = (\<Sum>k\<leftarrow>[?s' + int a..?t' + int a]. hs ! nat k)"
    by (rule sum_shift) (rule vals)
  moreover have "movingAverage ?hs' 5 ! j =
      (\<Sum>k\<leftarrow>[?s'..?t']. ?hs' ! nat k) / real_of_int (?t' - ?s' + 1)"
    using movingAverage_nth [of j ?hs'] assms(2) len' by simp
  moreover have "movingAverage hs 5 ! (j + a) =
      (\<Sum>k\<leftarrow>[?s..?t]. hs ! nat k) / real_of_int (?t - ?s + 1)"
    using movingAverage_nth [of "j + a" hs] assms(1,2) by simp
  ultimately show ?thesis unfolding s t by simp
qed

lemma isPeak_shift:
  assumes "agree sm' sm a (i - 2) (i + 2)"
  shows "isPeak sm' i \<longleftrightarrow> isPeak sm (i + a)"
proof -
  have "sm' ! nat (i + d) = sm ! nat (i + a + d)" if "- 2 \<le> d" "d \<le> 2" for d
    using agreeD [OF assms, of "i + d"] that by (simp add: add.commute add.left_commute)
  from this [of 0] this [of "- 1"] this [of "- 2"] this [of 1] this [of 2]
  show ?thesis by (simp add: isPeak_def)
qed

lemma fold_min_shift:
  assumes "\<And>j. j \<in> set xs \<Longrightarrow> sm' ! nat j = sm ! nat (j + a)"
  shows "fold (\<lambda>j m. min m (sm' ! nat j)) xs init =
         fold (\<lambda>j m. min m (sm ! nat j)) (map (\<lambda>j. j + a) xs) init"
  using assms by (induction xs arbitrary: init) simp_all

lemma leftMin_shift:
  assumes "agree sm' sm a (max 0 (i - 15)) i"
    and "max 0 (i + a - 15) = max 0 (i - 15) + a" and "0 \<le> i"
  shows "leftMin sm' i = leftMin sm (i + a)"
proof -
  have "fold (\<lambda>j m. min m (sm' ! nat j)) (rev [max 0 (i - 15)..i - 1]) (sm' ! nat i) =
      fold (\<lambda>j m. min m (sm ! nat j)) (map (\<lambda>j. j + a) (rev [max 0 (i - 15)..i - 1]))
        (sm' ! nat i)"
    by (rule fold_min_shift) (use agreeD [OF assms(1)] in auto)
  moreover have "map (\<lambda>j. j + a) (rev [max 0 (i - 15)..i - 1]) =
      rev [max 0 (i + a - 15)..i + a - 1]"
    unfolding assms(2) rev_map [symmetric] upto_shift by (simp add: algebra_simps)
  moreover have "sm' ! nat i = sm ! nat (i + a)"
    using agreeD [OF assms(1), of i] assms(3) by simp
  ultimately show ?thesis by (simp add: leftMin_def)
qed

lemma rightMin_shift:
  assumes "agree sm' sm a i (min (int (length sm') - 1) (i + 15))"
    and "min (int (length sm) - 1) (i + a + 15) = min (int (length sm') - 1) (i + 15) + a"
    and "i < int (length sm')"
  shows "rightMin sm' i = rightMin sm (i + a)"
proof -
  let ?u = "min (int (length sm') - 1) (i + 15)"
  have "fold (\<lambda>j m. min m (sm' ! nat j)) [i + 1..?u] (sm' ! nat i) =
      fold (\<lambda>j m. min m (sm ! nat j)) (map (\<lambda>j. j + a) [i + 1..?u]) (sm' ! nat i)"
    by (rule fold_min_shift) (use agreeD [OF assms(1)] in auto)
  moreover have "map (\<lambda>j. j + a) [i + 1..?u] = [i + a + 1..min (int (length sm) - 1) (i + a + 15)]"
    unfolding assms(2) upto_shift by (simp add: algebra_simps)
  moreover have "sm' ! nat i = sm ! nat (i + a)"
    using agreeD [OF assms(1), of i] assms(3) by simp
  ultimately show ?thesis by (simp add: rightMin_def)
qed

lemma bottom_survives:
  fixes hs :: "real list"
  assumes fit: "a + m \<le> length hs"
    and p: "p \<in> set (findBottoms (movingAverage hs 5))"
    and left: "a = 0 \<or> int a + 17 \<le> p"
    and right: "a + m = length hs \<or> p + 17 \<le> int (a + m) - 1"
  shows "p - int a \<in> set (findBottoms (movingAverage (take m (drop a hs)) 5))"
proof -
  let ?sm = "movingAverage hs 5"
  let ?sm' = "movingAverage (take m (drop a hs)) 5"
  let ?i = "p - int a"
  define lo :: int where "lo = (if a = 0 then 0 else 2)"
  define hi :: int where "hi = (if a + m = length hs then int m - 1 else int m - 3)"
  have len: "int (length ?sm) = int (length hs)" and len': "int (length ?sm') = int m"
    using fit by simp_all
  have p2: "2 \<le> p" and pn: "p \<le> int (length hs) - 3" and peak: "isPeak ?sm p"
    and prom: "prominence ?sm p \<ge> minProminence"
    using p by (auto simp: findBottoms_def)
  have ag: "agree ?sm' ?sm (int a) lo hi"
  proof (rule agreeI)
    fix j :: int
    assume j: "lo \<le> j" "j \<le> hi"
    have j0: "0 \<le> j" using j(1) by (simp add: lo_def split: if_splits)
    have jm: "nat j < m" using j(2) j0 by (simp add: hi_def split: if_splits)
    have c1: "a = 0 \<or> 2 \<le> nat j" using j(1) by (auto simp: lo_def split: if_splits)
    have c2: "a + m = length hs \<or> nat j + 3 \<le> m"
      using j(2) j0 by (auto simp: hi_def split: if_splits)
    have "?sm' ! nat j = ?sm ! (nat j + a)"
      using fit jm c1 c2 by (rule smooth_shift)
    then show "?sm' ! nat j = ?sm ! nat (j + int a)"
      using j0 by (simp add: nat_add_distrib)
  qed
  have i_lo: "lo + 2 \<le> ?i" "max 0 (?i - 15) \<ge> lo"
    using left p2 by (auto simp: lo_def)
  have i_hi: "?i + 2 \<le> hi" "min (int m - 1) (?i + 15) \<le> hi"
    using right pn fit by (auto simp: hi_def)
  have i0: "0 \<le> ?i" and im: "?i < int m" and i2: "2 \<le> ?i" and i3: "?i \<le> int m - 3"
    using i_lo(1) i_hi(1) by (auto simp: lo_def hi_def split: if_splits)
  have pk: "isPeak ?sm' ?i"
  proof -
    have "agree ?sm' ?sm (int a) (?i - 2) (?i + 2)"
      using ag by (rule agree_mono) (use i_lo(1) i_hi(1) in auto)
    then show ?thesis using isPeak_shift [of ?sm' ?sm "int a" ?i] peak by simp
  qed
  have lm: "leftMin ?sm' ?i = leftMin ?sm p"
  proof -
    have "agree ?sm' ?sm (int a) (max 0 (?i - 15)) ?i"
      using ag by (rule agree_mono) (use i_lo(2) i_hi(1) in auto)
    moreover have "max 0 (?i + int a - 15) = max 0 (?i - 15) + int a"
      using left by auto
    ultimately show ?thesis
      using leftMin_shift [of ?sm' ?sm "int a" ?i] i0 by simp
  qed
  have rm: "rightMin ?sm' ?i = rightMin ?sm p"
  proof -
    have "agree ?sm' ?sm (int a) ?i (min (int (length ?sm') - 1) (?i + 15))"
      using ag unfolding len' by (rule agree_mono) (use i_lo(1) i_hi(2) in auto)
    moreover have "min (int (length ?sm) - 1) (?i + int a + 15) =
        min (int (length ?sm') - 1) (?i + 15) + int a"
      unfolding len len' using right fit pn by auto
    ultimately show ?thesis
      using rightMin_shift [of ?sm' ?sm "int a" ?i] im len' by simp
  qed
  have "?sm' ! nat ?i = ?sm ! nat p"
    using agreeD [OF ag, of ?i] i_lo(1) i_hi(1) by simp
  then have "prominence ?sm' ?i = prominence ?sm p"
    by (simp add: prominence_def lm rm)
  then show ?thesis
    using pk prom i2 i3 len' by (simp add: findBottoms_def)
qed

lemma distinct_findBottoms: "distinct (findBottoms sm)"
  by (simp add: findBottoms_def)

lemma bottoms_count:
  fixes hs :: "real list"
  assumes fit: "a + m \<le> length hs"
    and left: "\<And>p. p \<in> set (findBottoms (movingAverage hs 5)) \<Longrightarrow> a = 0 \<or> int a + 17 \<le> p"
    and right: "\<And>p. p \<in> set (findBottoms (movingAverage hs 5)) \<Longrightarrow>
        a + m = length hs \<or> p + 17 \<le> int (a + m) - 1"
  shows "length (findBottoms (movingAverage hs 5)) \<le>
         length (findBottoms (movingAverage (take m (drop a hs)) 5))"
proof -
  let ?bs = "findBottoms (movingAverage hs 5)"
  let ?bs' = "findBottoms (movingAverage (take m (drop a hs)) 5)"
  have sub: "(\<lambda>p. p - int a) ` set ?bs \<subseteq> set ?bs'"
    using bottom_survives [OF fit _ left right] by blast
  have "inj_on (\<lambda>p. p - int a) (set ?bs)" by (simp add: inj_on_def)
  then have "card (set ?bs) = card ((\<lambda>p. p - int a) ` set ?bs)"
    by (simp add: card_image)
  also have "\<dots> \<le> card (set ?bs')" using sub by (simp add: card_mono)
  finally show ?thesis
    by (simp add: distinct_card distinct_findBottoms)
qed

lemma bottoms_of_detectReps:
  "map bottomFrame (detectReps frames) = (if length frames < 5 then [] else bottomsOf frames)"
proof (cases "length frames < 5")
  case True
  then show ?thesis by (simp add: detectReps_eq)
next
  case False
  then have len: "length (detectReps frames) = length (bottomsOf frames)"
    by (simp add: length_detectReps)
  have "map bottomFrame (detectReps frames) ! k = bottomsOf frames ! k"
    if k: "k < length (bottomsOf frames)" for k
  proof -
    have "k < length (detectReps frames)" using k len by simp
    then show ?thesis
      using detectReps_nth [of k frames] makeRep_bounds(1) [OF k] by simp
  qed
  then show ?thesis using False len by (simp add: list_eq_iff_nth_eq)
qed

lemma detectReps_nonempty:
  assumes "detectReps frames \<noteq> []"
  shows "\<not> length frames < 5" and "length (detectReps frames) = length (bottomsOf frames)"
    and "bottomsOf frames \<noteq> []" and "frames \<noteq> []"
proof -
  have "0 < length (detectReps frames)" using assms by simp
  then have "\<not> length frames < 5 \<and> 0 < length (bottomsOf frames)"
    unfolding length_detectReps by (simp split: if_splits)
  then show "\<not> length frames < 5" and "length (detectReps frames) = length (bottomsOf frames)"
    and "bottomsOf frames \<noteq> []" and "frames \<noteq> []"
    by (auto simp: length_detectReps)
qed

lemma slice_inside:
  assumes "0 \<le> a" and "a \<le> e" and "e < int (length xs)"
  shows "slice xs a (e + 1) = take (nat (e + 1 - a)) (drop (nat a) xs)"
  using assms by (simp add: slice_def Let_def)

text \<open>The bounds chosen by \<open>trimFramesToReps\<close> when reps were detected.\<close>

lemma trim_bounds:
  assumes rs: "detectReps frames \<noteq> []" and buf: "17 \<le> bufferFrames frames"
  shows "\<exists>a e. trimBounds frames (detectReps frames) = (a, e) \<and>
           0 \<le> a \<and> a \<le> e \<and> e < int (length frames) \<and>
           (\<forall>p \<in> set (bottomsOf frames). a = 0 \<or> a + 17 \<le> p) \<and>
           (\<forall>p \<in> set (bottomsOf frames). e = int (length frames) - 1 \<or> p + 17 \<le> e)"
proof -
  let ?rs = "detectReps frames"
  let ?bs = "bottomsOf frames"
  let ?n = "int (length frames)"
  let ?B = "bufferFrames frames"
  have n5: "\<not> length frames < 5" and len: "length ?rs = length ?bs" and bs: "?bs \<noteq> []"
    using detectReps_nonempty [OF rs] by simp_all
  have k0: "0 < length ?bs" and kl: "length ?bs - 1 < length ?bs" using bs by simp_all
  have hd_rs: "hd ?rs = makeRep (smoothedHip frames) ?n ?bs (int 0)"
    using detectReps_nth [of 0 frames] rs by (simp add: hd_conv_nth)
  have last_rs: "last ?rs = makeRep (smoothedHip frames) ?n ?bs (int (length ?bs - 1))"
    using detectReps_nth [of "length ?bs - 1" frames] rs len kl by (simp add: last_conv_nth)
  have s1: "0 \<le> startFrame (hd ?rs)" "startFrame (hd ?rs) \<le> ?bs ! 0"
    using makeRep_bounds(1,2,3) [OF k0] hd_rs by simp_all
  have eL: "?bs ! (length ?bs - 1) \<le> endFrame (last ?rs)" "endFrame (last ?rs) \<le> ?n - 1"
    using makeRep_bounds(1,4,5) [OF kl] last_rs by simp_all
  have srt: "sorted ?bs"
    using findBottoms_increasing [of "smoothedHip frames"]
    by (simp add: bottomsOf_def strict_sorted_imp_sorted)
  have between: "?bs ! 0 \<le> p \<and> p \<le> ?bs ! (length ?bs - 1)" if mem: "p \<in> set ?bs" for p
  proof -
    obtain k where k: "k < length ?bs" "?bs ! k = p"
      using mem by (auto simp: in_set_conv_nth)
    have "?bs ! 0 \<le> ?bs ! k" using srt k(1) by (simp add: sorted_nth_mono)
    moreover have "?bs ! k \<le> ?bs ! (length ?bs - 1)"
      using srt k(1) by (simp add: sorted_nth_mono)
    ultimately show ?thesis using k(2) by simp
  qed
  have avg: "avgFrameDuration frames \<noteq> 0"
    using buf by (auto simp: bufferFrames_def)
  define a where "a = max 0 (startFrame (hd ?rs) - ?B)"
  define e where "e = min (?n - 1) (endFrame (last ?rs) + ?B)"
  have tb: "trimBounds frames ?rs = (a, e)"
    using avg by (simp add: trimBounds_def Let_def a_def e_def bufferFrames_def)
  have first: "?bs ! 0 \<le> ?bs ! (length ?bs - 1)"
    using between [of "?bs ! 0"] k0 by simp
  have a0: "0 \<le> a" and ae: "a \<le> e" and en: "e < ?n"
    using s1 eL first buf by (auto simp: a_def e_def)
  have left: "a = 0 \<or> a + 17 \<le> p" if "p \<in> set ?bs" for p
    using between [OF that] s1 buf by (auto simp: a_def)
  have right: "e = ?n - 1 \<or> p + 17 \<le> e" if "p \<in> set ?bs" for p
    using between [OF that] eL buf by (auto simp: e_def)
  show ?thesis using tb a0 ae en left right by blast
qed

lemma trimmed_bottoms:
  assumes tr: "trimFramesToReps frames = Inr res" and buf: "17 \<le> bufferFrames frames"
  shows "length (detectReps frames) \<le> length (detectReps (trimmedFrames res))"
    and "\<forall>b \<in> set (map bottomFrame (detectReps frames)).
           b - trimStart frames \<in> set (map bottomFrame (detectReps (trimmedFrames res)))"
proof -
  let ?rs = "detectReps frames"
  let ?goal = "length ?rs \<le> length (detectReps (trimmedFrames res)) \<and>
      (\<forall>b \<in> set (map bottomFrame ?rs).
         b - trimStart frames \<in> set (map bottomFrame (detectReps (trimmedFrames res))))"
  have ?goal
  proof (cases "?rs = []")
    case True
    then show ?thesis by simp
  next
    case False
    then have n5: "\<not> length frames < 5" and ne: "frames \<noteq> []"
      and bne: "bottomsOf frames \<noteq> []"
      by (simp_all add: detectReps_nonempty)
    obtain a e where
      tb: "trimBounds frames ?rs = (a, e)"
      and a0: "0 \<le> a" and ae: "a \<le> e" and en: "e < int (length frames)"
      and left: "\<forall>p \<in> set (bottomsOf frames). a = 0 \<or> a + 17 \<le> p"
      and right: "\<forall>p \<in> set (bottomsOf frames). e = int (length frames) - 1 \<or> p + 17 \<le> e"
      using trim_bounds [OF False buf] by blast
    have ts: "trimStart frames = a" by (simp add: trimStart_def tb)
    have "trimmedFrames res = slice frames a (e + 1)"
      using tr False ne tb a0 ae en by (auto simp: trimFramesToReps_def Let_def)
    then have tf: "trimmedFrames res = take (nat (e + 1 - a)) (drop (nat a) frames)"
      using a0 ae en by (simp add: slice_inside)
    define hs where "hs = map avgHipY frames"
    define m where "m = nat (e + 1 - a)"
    have hs': "map avgHipY (trimmedFrames res) = take m (drop (nat a) hs)"
      by (simp add: tf hs_def m_def take_map drop_map)
    have fit: "nat a + m \<le> length hs" using a0 ae en by (simp add: hs_def m_def)
    have lentr: "length (trimmedFrames res) = m" using fit by (simp add: tf m_def hs_def)
    have bs: "bottomsOf frames = findBottoms (movingAverage hs 5)"
      by (simp add: bottomsOf_def smoothedHip_def hs_def)
    have bs': "bottomsOf (trimmedFrames res) =
        findBottoms (movingAverage (take m (drop (nat a) hs)) 5)"
      by (simp add: bottomsOf_def smoothedHip_def hs')
    have l: "nat a = 0 \<or> int (nat a) + 17 \<le> p"
      if "p \<in> set (findBottoms (movingAverage hs 5))" for p
      using left that a0 by (auto simp: bs)
    have r: "nat a + m = length hs \<or> p + 17 \<le> int (nat a + m) - 1"
      if "p \<in> set (findBottoms (movingAverage hs 5))" for p
      using right that a0 ae en by (auto simp: bs hs_def m_def)
    have surv: "p - a \<in> set (bottomsOf (trimmedFrames res))" if mem: "p \<in> set (bottomsOf frames)" for p
    proof -
      have p: "p \<in> set (findBottoms (movingAverage hs 5))" using mem by (simp add: bs)
      show ?thesis
        using bottom_survives [OF fit p l [OF p] r [OF p]] a0 by (simp add: bs')
    qed
    have cnt: "length (bottomsOf frames) \<le> length (bottomsOf (trimmedFrames res))"
      unfolding bs bs' using fit l r by (rule bottoms_count)
    obtain p where p: "p \<in> set (bottomsOf frames)"
      using bne by (cases "bottomsOf frames") auto
    have "p - a \<in> set (findBottoms (smoothedHip (trimmedFrames res)))"
      using surv [OF p] by (simp add: bottomsOf_def)
    then have "2 \<le> p - a" "p - a \<le> int (length (smoothedHip (trimmedFrames res))) - 3"
      by (rule findBottoms_mem)+
    then have m5: "\<not> length (trimmedFrames res) < 5"
      by (simp add: smoothedHip_def)
    show ?thesis
      using cnt surv n5 m5 by (simp add: length_detectReps bottoms_of_detectReps ts)
  qed
  then show "length (detectReps frames) \<le> length (detectReps (trimmedFrames res))"
    and "\<forall>b \<in> set (map bottomFrame (detectReps frames)).
           b - trimStart frames \<in> set (map bottomFrame (detectReps (trimmedFrames res)))"
    by simp_all
qed

subsection \<open>A clip on which trimming adds a rep\<close>

lemma avgHipY_clipAt_aux:
  "map avgHipY (map (\<lambda>(i, v). mkFrame (real i / fps) v) (enumerate n ys)) = ys"
  by (induction ys arbitrary: n) simp_all

lemma avgHipY_clipAt [simp]: "map avgHipY (clipAt fps ys) = ys"
  unfolding clipAt_def by (rule avgHipY_clipAt_aux)

lemma length_clipAt [simp]: "length (clipAt fps ys) = length ys"
  by (simp add: clipAt_def)

lemma avgFrameDuration_clipAt:
  assumes "1 < length ys" and "fps \<noteq> 0"
  shows "avgFrameDuration (clipAt fps ys) = 1 / fps"
proof -
  let ?n = "length ys"
  have ne: "enumerate 0 ys \<noteq> []" using assms(1) by (cases ys) simp_all
  have h: "hd (enumerate 0 ys) = (0, hd ys)" using assms(1) by (cases ys) simp_all
  have "ys \<noteq> []" using assms(1) by auto
  then have l: "last (enumerate 0 ys) = (?n - 1, last ys)"
    using assms(1) by (simp add: last_conv_nth ne nth_enumerate_eq)
  have "timestamp (hd (clipAt fps ys)) = 0"
    using ne h by (simp add: clipAt_def hd_map mkFrame_def)
  moreover have "timestamp (last (clipAt fps ys)) = real (?n - 1) / fps"
    using ne l by (simp add: clipAt_def last_map mkFrame_def)
  ultimately show ?thesis
    using assms by (simp add: avgFrameDuration_def)
qed

lemma smoothedHip_clipAt: "smoothedHip (clipAt fps ys) = movingAverage ys 5"
  by (simp add: smoothedHip_def)

lemma cut_smoothed: "movingAverage cutHips 5 = cutSmoothed"
  by (simp add: cutHips_def cutSmoothed_def movingAverage_def Let_def upto_rec1)

lemma cut_peaks: "filter (isPeak cutSmoothed) [2..int (length cutSmoothed) - 3] = [26]"
  by (simp add: cutSmoothed_def upto_rec1 isPeak_def)

lemma cut_bottoms: "findBottoms cutSmoothed = [26]"
  unfolding findBottoms_staged cut_peaks
  by (simp add: cutSmoothed_def prominence_def leftMin_def rightMin_def minProminence_def
      upto_rec1)

lemma cut_valleys:
  "findValley cutSmoothed 26 Backward 0 = 21"
  "findValley cutSmoothed 26 Forward 29 = 29"
  by (simp_all add: cutSmoothed_def findValley.simps Let_def)

lemma cut_rep:
  "makeRep cutSmoothed 30 [26] 0 = \<lparr> startFrame = 21, endFrame = 29, bottomFrame = 26 \<rparr>"
proof -
  have "length cutSmoothed = 30" by (simp add: cutSmoothed_def)
  then show ?thesis by (simp add: makeRep_def Let_def cut_valleys)
qed

lemma detectReps_cutClip:
  "detectReps cutClip = [\<lparr> startFrame = 21, endFrame = 29, bottomFrame = 26 \<rparr>]"
proof -
  have l: "length cutClip = 30" by (simp add: cutClip_def cutHips_def)
  have b: "bottomsOf cutClip = [26]"
    by (simp add: bottomsOf_def cutClip_def smoothedHip_clipAt cut_smoothed cut_bottoms)
  have s: "smoothedHip cutClip = cutSmoothed"
    by (simp add: cutClip_def smoothedHip_clipAt cut_smoothed)
  show ?thesis
    unfolding detectReps_eq b s l by (simp add: cut_rep)
qed

lemma avgFrameDuration_cutClip: "avgFrameDuration cutClip = 1 / 8"
  unfolding cutClip_def by (rule avgFrameDuration_clipAt) (simp_all add: cutHips_def)

lemma bufferFrames_cutClip: "bufferFrames cutClip = 20"
  unfolding bufferFrames_def avgFrameDuration_cutClip BUFFER_SECONDS_def by simp

lemma trimBounds_cutClip: "trimBounds cutClip (detectReps cutClip) = (1, 29)"
proof -
  have l: "length cutClip = 30" by (simp add: cutClip_def cutHips_def)
  have c: "\<lceil>BUFFER_SECONDS / (1 / 8)\<rceil> = 20" by (simp add: BUFFER_SECONDS_def)
  show ?thesis
    unfolding trimBounds_def avgFrameDuration_cutClip detectReps_cutClip l Let_def c
    by simp
qed

lemma trim_cutClip:
  "\<exists>res. trimFramesToReps cutClip = Inr res \<and> trimmedFrames res = slice cutClip 1 30"
proof -
  have "cutClip \<noteq> []" "length cutClip = 30" by (simp_all add: cutClip_def cutHips_def clipAt_def)
  then show ?thesis
    unfolding trimFramesToReps_def Let_def trimBounds_cutClip
    by (simp add: detectReps_cutClip)
qed

lemma trimmed_hips: "map avgHipY (slice cutClip 1 30) = tl cutHips"
proof -
  have "slice cutClip 1 (29 + 1) = take (nat (29 + 1 - 1)) (drop (nat 1) cutClip)"
    by (rule slice_inside) (simp_all add: cutClip_def cutHips_def)
  then have "map avgHipY (slice cutClip 1 30) = take 29 (drop 1 (map avgHipY cutClip))"
    by (simp add: take_map drop_map)
  then show ?thesis by (simp add: cutClip_def cutHips_def)
qed

lemma trimmed_smoothed: "movingAverage (tl cutHips) 5 = cutSmoothedTrimmed"
  by (simp add: cutHips_def cutSmoothedTrimmed_def movingAverage_def Let_def upto_rec1)

lemma trimmed_peaks:
  "filter (isPeak cutSmoothedTrimmed) [2..int (length cutSmoothedTrimmed) - 3] = [2, 25]"
  by (simp add: cutSmoothedTrimmed_def upto_rec1 isPeak_def)

lemma trimmed_bottoms_cut: "findBottoms cutSmoothedTrimmed = [2, 25]"
  unfolding findBottoms_staged trimmed_peaks
  by (simp add: cutSmoothedTrimmed_def prominence_def leftMin_def rightMin_def minProminence_def
      upto_rec1)

lemma detectReps_trimmed: "length (detectReps (slice cutClip 1 30)) = 2"
proof -
  have "length (map avgHipY (slice cutClip 1 30)) = 29"
    unfolding trimmed_hips by (simp add: cutHips_def)
  then have l: "length (slice cutClip 1 30) = 29" by simp
  have "bottomsOf (slice cutClip 1 30) = [2, 25]"
    by (simp add: bottomsOf_def smoothedHip_def trimmed_hips trimmed_smoothed trimmed_bottoms_cut)
  then show ?thesis by (simp add: length_detectReps l)
qed

text \<open>
  Claim C9, as stated, is false: trimming this clip drops its first frame only (the
  buffer is 20 frames), and re-segmentation then finds two reps where the original has
  one.
\<close>

theorem trim_roundtrip_counterexample:
  "\<exists>res. trimFramesToReps cutClip = Inr res \<and>
     length (detectReps cutClip) = 1 \<and>
     length (detectReps (trimmedFrames res)) = 2"
  using trim_cutClip by (auto simp: detectReps_cutClip detectReps_trimmed)

text \<open>
  Claim C9, amended. When the buffer is at least 17 frames (the prominence window of 15
  frames and the smoothing half-window of 2), every rep bottom of the original sequence
  is detected again in the trimmed sequence, at its index shifted by the first frame
  kept; so the trimmed sequence yields at least as many reps as the original.
\<close>

theorem trim_keeps_reps:
  assumes "trimFramesToReps frames = Inr res" and "17 \<le> bufferFrames frames"
  shows "length (detectReps frames) \<le> length (detectReps (trimmedFrames res)) \<and>
         (\<forall>b \<in> set (map bottomFrame (detectReps frames)).
            b - trimStart frames \<in> set (map bottomFrame (detectReps (trimmedFrames res))))"
  using trimmed_bottoms [OF assms] by blast

theorem trim_keeps_reps_witness:
  "\<exists>res. trimFramesToReps cutClip = Inr res \<and> 17 \<le> bufferFrames cutClip \<and>
     map bottomFrame (detectReps cutClip) = [26] \<and> trimStart cutClip = 1 \<and>
     length (detectReps cutClip) \<le> length (detectReps (trimmedFrames res)) \<and>
     25 \<in> set (map bottomFrame (detectReps (trimmedFrames res)))"
proof -
  obtain res where r: "trimFramesToReps cutClip = Inr res" using trim_cutClip by blast
  have b: "17 \<le> bufferFrames cutClip" by (simp add: bufferFrames_cutClip)
  have s: "trimStart cutClip = 1" by (simp add: trimStart_def trimBounds_cutClip)
  have d: "map bottomFrame (detectReps cutClip) = [26]" by (simp add: detectReps_cutClip)
  show ?thesis
    using trim_keeps_reps [OF r b] r b s d by auto
qed

end
